theory Spec2Isabelle
  imports Main "HOL-Library.Product_Lexorder"
begin

section \<open>State model\<close>

text \<open>
  The board is a Python list of the strings \<^verbatim>\<open>' '\<close>, \<^verbatim>\<open>'x'\<close> and \<^verbatim>\<open>'o'\<close>.  A cell is
  modelled as \<open>player option\<close>: \<open>None\<close> is the blank \<^verbatim>\<open>' '\<close>, \<open>Some PX\<close> is \<^verbatim>\<open>'x'\<close> and
  \<open>Some PO\<close> is \<^verbatim>\<open>'o'\<close>.  The list may have any length; what numpy and Python raise on a
  list that is not a 3 by 3 board, or on an index out of range, is a value of \<open>error\<close>.
\<close>

datatype player = PX | PO

type_synonym cell = "player option"

type_synonym board = "cell list"

datatype error = ValueError | IndexError

text \<open>The four strings \<^verbatim>\<open>check_win\<close> returns: \<^verbatim>\<open>'x'\<close> or \<^verbatim>\<open>'o'\<close>, \<^verbatim>\<open>'d'\<close>, \<^verbatim>\<open>'n'\<close>.\<close>

datatype goal = Won player | Draw | Next

definition empty_board :: board where
  "empty_board = replicate 9 None"

text \<open>
  \<^verbatim>\<open>np.array(board).reshape((3,3))\<close>, its transpose and the two diagonals, as lists of
  rows; \<^verbatim>\<open>reshape\<close> raises \<^verbatim>\<open>ValueError\<close> unless the list has nine entries, which
  \<open>check_win\<close> tests before it reads these.
\<close>

definition reshape33 :: "board \<Rightarrow> cell list list" where
  "reshape33 b = [[b ! 0, b ! 1, b ! 2], [b ! 3, b ! 4, b ! 5], [b ! 6, b ! 7, b ! 8]]"

definition transpose33 :: "board \<Rightarrow> cell list list" where
  "transpose33 b = [[b ! 0, b ! 3, b ! 6], [b ! 1, b ! 4, b ! 7], [b ! 2, b ! 5, b ! 8]]"

definition diagonals :: "board \<Rightarrow> cell list list" where
  "diagonals b = [[b ! 0, b ! 4, b ! 8], [b ! 2, b ! 4, b ! 6]]"

text \<open>
  The two nested \<^verbatim>\<open>for\<close> loops of \<^verbatim>\<open>check_win\<close>: the first row, in the order rows,
  columns, diagonals, with \<^verbatim>\<open>len(set(row)) == 1 and row[0] != ' '\<close> decides, and
  \<^verbatim>\<open>row[0]\<close> is returned.
\<close>

fun scan_rows :: "cell list list \<Rightarrow> player option" where
  "scan_rows [] = None"
| "scan_rows (row # rows) =
     (case hd row of
        Some p \<Rightarrow> if length (remdups row) = 1 then Some p else scan_rows rows
      | None \<Rightarrow> scan_rows rows)"

definition check_win :: "board \<Rightarrow> error + goal" where
  "check_win board =
     (if length board \<noteq> 9 then Inl ValueError
      else case scan_rows (reshape33 board @ transpose33 board @ diagonals board) of
             Some p \<Rightarrow> Inr (Won p)
           | None \<Rightarrow> if length (filter (\<lambda>c. c = None) board) < 1 then Inr Draw else Inr Next)"

text \<open>
  \<^verbatim>\<open>get_actions\<close> as first defined (and as the Monte Carlo notebook defines it): the
  indices of the blank cells, ascending.
\<close>

definition get_actions :: "board \<Rightarrow> nat list" where
  "get_actions board = filter (\<lambda>i. board ! i = None) [0..<length board]"

text \<open>
  \<^verbatim>\<open>get_actions\<close> as the alpha-beta notebook redefines it for move ordering.
  \<^verbatim>\<open>priority[i]\<close> raises \<^verbatim>\<open>IndexError\<close> for a blank cell beyond the ninth;
  \<^verbatim>\<open>sorted(zip(priority, actions), reverse=True)\<close> sorts the pairs in descending
  lexicographic order.
\<close>

definition priority :: "nat list" where
  "priority = [1, 0, 1, 0, 2, 0, 1, 0, 1]"

definition sorted_reverse :: "('a::linorder) list \<Rightarrow> 'a list" where
  "sorted_reverse xs = rev (sort (rev xs))"

definition get_actions_priority :: "board \<Rightarrow> error + nat list" where
  "get_actions_priority board =
     (let actions = get_actions board in
      if list_ex (\<lambda>i. length priority \<le> i) actions then Inl IndexError
      else let pr = map (\<lambda>i. priority ! i) actions
           in Inr (map snd (sorted_reverse (zip pr actions))))"

text \<open>
  The engines call the global name \<^verbatim>\<open>get_actions\<close>, which the notebook binds twice; the
  binding in force when an engine runs is a parameter of the model.
\<close>

datatype action_order = Natural | Priority

definition get_actions_by :: "action_order \<Rightarrow> board \<Rightarrow> error + nat list" where
  "get_actions_by ord board =
     (case ord of Natural \<Rightarrow> Inr (get_actions board) | Priority \<Rightarrow> get_actions_priority board)"

definition other :: "player \<Rightarrow> player" where
  "other player = (if player = PX then PO else PX)"

text \<open>
  \<^verbatim>\<open>result\<close> copies the list and stores the player's mark at the index.  Both notebooks
  store the mark whatever the cell holds; the alpha-beta notebook first prints
  \<^verbatim>\<open>Error: Illegal move!\<close> when the cell is taken, which \<open>result_stdout\<close> records (the
  Monte Carlo notebook prints nothing).  An index beyond the list raises \<^verbatim>\<open>IndexError\<close>.
\<close>

definition result :: "board \<Rightarrow> player \<Rightarrow> nat \<Rightarrow> error + board" where
  "result state player action =
     (if action < length state then Inr (state[action := Some player]) else Inl IndexError)"

definition result_stdout :: "board \<Rightarrow> player \<Rightarrow> nat \<Rightarrow> string list" where
  "result_stdout state player action =
     (if action < length state \<and> state ! action \<noteq> None then [''Error: Illegal move!''] else [])"

definition utility :: "board \<Rightarrow> player \<Rightarrow> error + int option" where
  "utility state player =
     (case check_win state of
        Inl e \<Rightarrow> Inl e
      | Inr goal \<Rightarrow>
          if goal = Won player then Inr (Some 1)
          else if goal = Draw then Inr (Some 0)
          else if goal = Won (other player) then Inr (Some (- 1))
          else Inr None)"

definition is_terminal :: "board \<Rightarrow> error + bool" where
  "is_terminal state = (case check_win state of Inl e \<Rightarrow> Inl e | Inr goal \<Rightarrow> Inr (goal \<noteq> Next))"

text \<open>
  Values of the search: the integers \<^verbatim>\<open>+1\<close>, \<^verbatim>\<open>0\<close>, \<^verbatim>\<open>-1\<close> of \<open>utility\<close> and the two
  infinities \<^verbatim>\<open>-math.inf\<close> and \<^verbatim>\<open>+math.inf\<close>, ordered as Python compares them.
\<close>

datatype 'a ext = MInf | Fin 'a | PInf

instantiation ext :: (linorder) linorder
begin

fun less_eq_ext :: "'a ext \<Rightarrow> 'a ext \<Rightarrow> bool" where
  "less_eq_ext MInf y = True"
| "less_eq_ext (Fin a) MInf = False"
| "less_eq_ext (Fin a) (Fin b) = (a \<le> b)"
| "less_eq_ext (Fin a) PInf = True"
| "less_eq_ext PInf PInf = True"
| "less_eq_ext PInf y = False"

definition less_ext :: "'a ext \<Rightarrow> 'a ext \<Rightarrow> bool" where
  "less_ext x y = (x \<le> y \<and> \<not> y \<le> x)"

instance
proof
  fix x y z :: "'a ext"
  show "(x < y) = (x \<le> y \<and> \<not> y \<le> x)" by (simp add: less_ext_def)
  show "x \<le> x" by (cases x) auto
  show "x \<le> y \<Longrightarrow> y \<le> z \<Longrightarrow> x \<le> z" by (cases x; cases y; cases z) auto
  show "x \<le> y \<Longrightarrow> y \<le> x \<Longrightarrow> x = y" by (cases x; cases y) auto
  show "x \<le> y \<or> y \<le> x" by (cases x; cases y) auto
qed

end

section \<open>Loops\<close>

text \<open>
  A Python \<^verbatim>\<open>for\<close> loop over a list whose body may fall through to the next element,
  leave the enclosing function with \<^verbatim>\<open>return\<close>, or raise.
\<close>

datatype ('s, 'r) flow = Continue 's | Return 'r | Raise error

fun for_each :: "'a list \<Rightarrow> ('a \<Rightarrow> 's \<Rightarrow> ('s, 'r) flow) \<Rightarrow> 's \<Rightarrow> ('s, 'r) flow" where
  "for_each [] body s = Continue s"
| "for_each (a # as) body s =
     (case body a s of
        Continue s' \<Rightarrow> for_each as body s'
      | Return r \<Rightarrow> Return r
      | Raise e \<Rightarrow> Raise e)"

lemma for_each_cong [fundef_cong]:
  "xs = ys \<Longrightarrow> s = t \<Longrightarrow> (\<And>a s'. a \<in> set ys \<Longrightarrow> f a s' = g a s') \<Longrightarrow>
   for_each xs f s = for_each ys g t"
proof (induction ys arbitrary: xs s t)
  case Nil
  then show ?case by simp
next
  case (Cons y ys)
  have "for_each ys f u = for_each ys g u" for u
    by (rule Cons.IH) (simp_all add: Cons.prems(3))
  with Cons.prems show ?case
    by (simp split: flow.splits)
qed

section \<open>Legal actions fill a blank cell\<close>

text \<open>The number of blank cells: the measure by which every recursion below terminates.\<close>

definition blanks :: "board \<Rightarrow> nat" where
  "blanks b = length (filter (\<lambda>c. c = None) b)"

lemma blanks_update:
  "a < length b \<Longrightarrow> b ! a = None \<Longrightarrow> Suc (blanks (b[a := Some p])) = blanks b"
proof (induction b arbitrary: a)
  case Nil
  then show ?case by simp
next
  case (Cons c b)
  show ?case
  proof (cases a)
    case 0
    with Cons.prems show ?thesis by (simp add: blanks_def)
  next
    case (Suc k)
    with Cons.prems have "Suc (blanks (b[k := Some p])) = blanks b"
      by (intro Cons.IH) simp_all
    with Suc show ?thesis by (simp add: blanks_def)
  qed
qed

lemma set_get_actions: "set (get_actions b) = {i. i < length b \<and> b ! i = None}"
  by (auto simp: get_actions_def)

lemma set_sorted_reverse: "set (sorted_reverse xs) = set xs"
  by (simp add: sorted_reverse_def)

lemma set_get_actions_priority:
  assumes "get_actions_priority b = Inr as"
  shows "set as = set (get_actions b)"
proof -
  from assms have as: "as = map snd (sorted_reverse (zip (map (\<lambda>i. priority ! i) (get_actions b)) (get_actions b)))"
    by (simp add: get_actions_priority_def Let_def split: if_splits)
  have "map snd (zip (map (\<lambda>i. priority ! i) (get_actions b)) (get_actions b)) = get_actions b"
    by (rule map_snd_zip) simp
  then have "snd ` set (zip (map (\<lambda>i. priority ! i) (get_actions b)) (get_actions b)) = set (get_actions b)"
    by (metis set_map)
  then show ?thesis
    by (simp add: as set_sorted_reverse)
qed

lemma set_get_actions_by:
  "get_actions_by ord b = Inr as \<Longrightarrow> set as = {i. i < length b \<and> b ! i = None}"
  by (cases ord) (auto simp: get_actions_by_def set_get_actions dest: set_get_actions_priority)

lemma child_blanks:
  assumes "get_actions_by ord b = Inr as" "a \<in> set as" "result b p a = Inr c"
  shows "blanks c < blanks b" and "length c = length b"
proof -
  from assms(1,2) have a: "a < length b" "b ! a = None"
    by (auto dest: set_get_actions_by)
  from assms(3) a have c: "c = b[a := Some p]"
    by (simp add: result_def)
  from blanks_update[OF a, of p] show "blanks c < blanks b"
    by (simp add: c)
  show "length c = length b"
    by (simp add: c)
qed

section \<open>Exhaustive minimax\<close>

text \<open>
  The global \<^verbatim>\<open>COUNT\<close> is threaded through the calls: each function takes its value on
  entry and returns its value on exit.  A call returns the pair \<^verbatim>\<open>(v, move)\<close>, or the
  exception that \<open>utility\<close>, \<^verbatim>\<open>get_actions\<close> or \<open>result\<close> raised.  The \<^verbatim>\<open>DEBUG\<close> printing
  is not modelled.
\<close>

type_synonym answer = "(int ext \<times> nat option) \<times> nat"

function max_value :: "action_order \<Rightarrow> board \<Rightarrow> player \<Rightarrow> nat \<Rightarrow> error + answer"
  and min_value :: "action_order \<Rightarrow> board \<Rightarrow> player \<Rightarrow> nat \<Rightarrow> error + answer"
where
  "max_value ord state player COUNT =
     (case utility state player of
        Inl e \<Rightarrow> Inl e
      | Inr (Some v) \<Rightarrow> Inr ((Fin v, None), COUNT + 1)
      | Inr None \<Rightarrow>
          (case get_actions_by ord state of
             Inl e \<Rightarrow> Inl e
           | Inr actions \<Rightarrow>
               (case for_each actions
                       (\<lambda>a ((v, move), c).
                          case result state player a of
                            Inl e \<Rightarrow> Raise e
                          | Inr child \<Rightarrow>
                              (case min_value ord child player c of
                                 Inl e \<Rightarrow> Raise e
                               | Inr ((v2, a2), c') \<Rightarrow>
                                   if v2 > v then Continue ((v2, Some a), c')
                                   else Continue ((v, move), c')))
                       ((MInf, None), COUNT + 1) of
                  Continue r \<Rightarrow> Inr r
                | Return r \<Rightarrow> Inr r
                | Raise e \<Rightarrow> Inl e)))"
| "min_value ord state player COUNT =
     (case utility state player of
        Inl e \<Rightarrow> Inl e
      | Inr (Some v) \<Rightarrow> Inr ((Fin v, None), COUNT + 1)
      | Inr None \<Rightarrow>
          (case get_actions_by ord state of
             Inl e \<Rightarrow> Inl e
           | Inr actions \<Rightarrow>
               (case for_each actions
                       (\<lambda>a ((v, move), c).
                          case result state (other player) a of
                            Inl e \<Rightarrow> Raise e
                          | Inr child \<Rightarrow>
                              (case max_value ord child player c of
                                 Inl e \<Rightarrow> Raise e
                               | Inr ((v2, a2), c') \<Rightarrow>
                                   if v2 < v then Continue ((v2, Some a), c')
                                   else Continue ((v, move), c')))
                       ((PInf, None), COUNT + 1) of
                  Continue r \<Rightarrow> Inr r
                | Return r \<Rightarrow> Inr r
                | Raise e \<Rightarrow> Inl e)))"
  by pat_completeness auto
termination
  by (relation "measure (\<lambda>x. case x of Inl (ord, s, p, c) \<Rightarrow> blanks s | Inr (ord, s, p, c) \<Rightarrow> blanks s)")
    (auto dest: child_blanks(1))

section \<open>Minimax with alpha-beta pruning\<close>

text \<open>
  As above, with the window \<^verbatim>\<open>alpha\<close>, \<^verbatim>\<open>beta\<close>.  The loop carries \<^verbatim>\<open>v\<close>, \<^verbatim>\<open>move\<close>, the
  local \<^verbatim>\<open>alpha\<close> (in \<open>min_value_ab\<close>: \<^verbatim>\<open>beta\<close>) and \<^verbatim>\<open>COUNT\<close>; the \<^verbatim>\<open>return\<close> inside the
  loop is the cutoff.
\<close>

function max_value_ab :: "action_order \<Rightarrow> board \<Rightarrow> player \<Rightarrow> int ext \<Rightarrow> int ext \<Rightarrow> nat \<Rightarrow> error + answer"
  and min_value_ab :: "action_order \<Rightarrow> board \<Rightarrow> player \<Rightarrow> int ext \<Rightarrow> int ext \<Rightarrow> nat \<Rightarrow> error + answer"
where
  "max_value_ab ord state player alpha beta COUNT =
     (case utility state player of
        Inl e \<Rightarrow> Inl e
      | Inr (Some v) \<Rightarrow> Inr ((Fin v, None), COUNT + 1)
      | Inr None \<Rightarrow>
          (case get_actions_by ord state of
             Inl e \<Rightarrow> Inl e
           | Inr actions \<Rightarrow>
               (case for_each actions
                       (\<lambda>a ((v, move), alpha, c).
                          case result state player a of
                            Inl e \<Rightarrow> Raise e
                          | Inr child \<Rightarrow>
                              (case min_value_ab ord child player alpha beta c of
                                 Inl e \<Rightarrow> Raise e
                               | Inr ((v2, a2), c') \<Rightarrow>
                                   let (v, move, alpha) =
                                         (if v2 > v then (v2, Some a, max alpha v2)
                                          else (v, move, alpha))
                                   in if v \<ge> beta then Return ((v, move), c')
                                      else Continue ((v, move), alpha, c')))
                       ((MInf, None), alpha, COUNT + 1) of
                  Continue ((v, move), alpha, c) \<Rightarrow> Inr ((v, move), c)
                | Return r \<Rightarrow> Inr r
                | Raise e \<Rightarrow> Inl e)))"
| "min_value_ab ord state player alpha beta COUNT =
     (case utility state player of
        Inl e \<Rightarrow> Inl e
      | Inr (Some v) \<Rightarrow> Inr ((Fin v, None), COUNT + 1)
      | Inr None \<Rightarrow>
          (case get_actions_by ord state of
             Inl e \<Rightarrow> Inl e
           | Inr actions \<Rightarrow>
               (case for_each actions
                       (\<lambda>a ((v, move), beta, c).
                          case result state (other player) a of
                            Inl e \<Rightarrow> Raise e
                          | Inr child \<Rightarrow>
                              (case max_value_ab ord child player alpha beta c of
                                 Inl e \<Rightarrow> Raise e
                               | Inr ((v2, a2), c') \<Rightarrow>
                                   let (v, move, beta) =
                                         (if v2 < v then (v2, Some a, min beta v2)
                                          else (v, move, beta))
                                   in if v \<le> alpha then Return ((v, move), c')
                                      else Continue ((v, move), beta, c')))
                       ((PInf, None), beta, COUNT + 1) of
                  Continue ((v, move), beta, c) \<Rightarrow> Inr ((v, move), c)
                | Return r \<Rightarrow> Inr r
                | Raise e \<Rightarrow> Inl e)))"
  by pat_completeness auto
termination
  by (relation "measure (\<lambda>x. case x of Inl (ord, s, p, al, be, c) \<Rightarrow> blanks s
                                       | Inr (ord, s, p, al, be, c) \<Rightarrow> blanks s)")
    (auto dest: child_blanks(1))

section \<open>The two entry points\<close>

record search_result =
  move :: "nat option"
  val :: "int ext"

text \<open>
  \<^verbatim>\<open>minimax_search\<close> resets \<^verbatim>\<open>COUNT\<close>, searches, and returns the dictionary with the
  keys \<^verbatim>\<open>move\<close> and \<^verbatim>\<open>value\<close> (the field \<open>val\<close>); the model returns with it the value
  \<^verbatim>\<open>COUNT\<close> has after the call.
\<close>

definition minimax_search :: "action_order \<Rightarrow> board \<Rightarrow> player \<Rightarrow> error + (search_result \<times> nat)" where
  "minimax_search ord board player =
     (case max_value ord board player 0 of
        Inl e \<Rightarrow> Inl e
      | Inr ((value, mv), COUNT) \<Rightarrow> Inr (\<lparr>move = mv, val = value\<rparr>, COUNT))"

definition alpha_beta_search :: "action_order \<Rightarrow> board \<Rightarrow> player \<Rightarrow> error + (search_result \<times> nat)" where
  "alpha_beta_search ord board player =
     (case max_value_ab ord board player MInf PInf 0 of
        Inl e \<Rightarrow> Inl e
      | Inr ((value, mv), COUNT) \<Rightarrow> Inr (\<lparr>move = mv, val = value\<rparr>, COUNT))"

declare max_value.simps [simp del] min_value.simps [simp del]
declare max_value_ab.simps [simp del] min_value_ab.simps [simp del]

section \<open>Game trees\<close>

text \<open>
  The tree the two engines walk, with the action on each edge.  It is a device of the
  proofs: the searches are shown to compute, on the tree of a board, what the functions
  below compute by recursion on the tree.
\<close>

datatype tree = Leaf int | Node "(nat \<times> tree) list"

text \<open>The size of a list of labelled subtrees, for the termination of the functions below.\<close>

lemma forest_measure [measure_function]:
  "is_measure (\<lambda>ts :: (nat \<times> tree) list. size_list (size_prod (\<lambda>_. 0) size) ts)"
  by (rule is_measure_trivial)

text \<open>
  Minimax on a tree: \<open>mm_max\<close> and \<open>mm_min\<close> return the pair \<^verbatim>\<open>(v, move)\<close>; \<open>mm_maxs\<close> and
  \<open>mm_mins\<close> are the two \<^verbatim>\<open>for\<close> statements, with the running pair as accumulator and the
  strict comparisons of the source.  \<open>nodes\<close> counts the nodes of a tree.
\<close>

fun mm_max :: "tree \<Rightarrow> int ext \<times> nat option"
  and mm_maxs :: "(nat \<times> tree) list \<Rightarrow> int ext \<times> nat option \<Rightarrow> int ext \<times> nat option"
  and mm_min :: "tree \<Rightarrow> int ext \<times> nat option"
  and mm_mins :: "(nat \<times> tree) list \<Rightarrow> int ext \<times> nat option \<Rightarrow> int ext \<times> nat option"
where
  "mm_max (Leaf u) = (Fin u, None)"
| "mm_max (Node ts) = mm_maxs ts (MInf, None)"
| "mm_maxs [] r = r"
| "mm_maxs ((a, t) # ts) r =
     mm_maxs ts (if fst (mm_min t) > fst r then (fst (mm_min t), Some a) else r)"
| "mm_min (Leaf u) = (Fin u, None)"
| "mm_min (Node ts) = mm_mins ts (PInf, None)"
| "mm_mins [] r = r"
| "mm_mins ((a, t) # ts) r =
     mm_mins ts (if fst (mm_max t) < fst r then (fst (mm_max t), Some a) else r)"

fun nodes :: "tree \<Rightarrow> nat" and nodess :: "(nat \<times> tree) list \<Rightarrow> nat" where
  "nodes (Leaf u) = 1"
| "nodes (Node ts) = Suc (nodess ts)"
| "nodess [] = 0"
| "nodess ((a, t) # ts) = nodes t + nodess ts"

text \<open>
  Alpha-beta on a tree: the pair \<^verbatim>\<open>(v, move)\<close> and the number of nodes visited.  The
  window is updated and the cutoff taken as in \<open>max_value_ab\<close> and \<open>min_value_ab\<close>.
\<close>

fun ab_max :: "int ext \<Rightarrow> int ext \<Rightarrow> tree \<Rightarrow> answer"
  and ab_maxs :: "int ext \<Rightarrow> int ext \<Rightarrow> (nat \<times> tree) list \<Rightarrow> int ext \<times> nat option \<Rightarrow> answer"
  and ab_min :: "int ext \<Rightarrow> int ext \<Rightarrow> tree \<Rightarrow> answer"
  and ab_mins :: "int ext \<Rightarrow> int ext \<Rightarrow> (nat \<times> tree) list \<Rightarrow> int ext \<times> nat option \<Rightarrow> answer"
where
  "ab_max al be (Leaf u) = ((Fin u, None), 1)"
| "ab_max al be (Node ts) = (let (r, n) = ab_maxs al be ts (MInf, None) in (r, Suc n))"
| "ab_maxs al be [] r = (r, 0)"
| "ab_maxs al be ((a, t) # ts) r =
     (let (r2, n) = ab_min al be t;
          r' = (if fst r2 > fst r then (fst r2, Some a) else r);
          al' = (if fst r2 > fst r then max al (fst r2) else al)
      in if fst r' \<ge> be then (r', n)
         else let (r'', n') = ab_maxs al' be ts r' in (r'', n + n'))"
| "ab_min al be (Leaf u) = ((Fin u, None), 1)"
| "ab_min al be (Node ts) = (let (r, n) = ab_mins al be ts (PInf, None) in (r, Suc n))"
| "ab_mins al be [] r = (r, 0)"
| "ab_mins al be ((a, t) # ts) r =
     (let (r2, n) = ab_max al be t;
          r' = (if fst r2 < fst r then (fst r2, Some a) else r);
          be' = (if fst r2 < fst r then min be (fst r2) else be)
      in if fst r' \<le> al then (r', n)
         else let (r'', n') = ab_mins al be' ts r' in (r'', n + n'))"


text \<open>
  The tree of a board: a leaf with the utility for \<open>p\<close> when the game is over, otherwise one
  subtree for each action, in the order \<^verbatim>\<open>get_actions\<close> lists them; \<open>maxi\<close> says whether
  \<open>p\<close> or the opponent moves.
\<close>

function tree_of :: "action_order \<Rightarrow> player \<Rightarrow> bool \<Rightarrow> board \<Rightarrow> tree" where
  "tree_of ord p maxi s =
     (case utility s p of
        Inl e \<Rightarrow> Leaf 0
      | Inr (Some u) \<Rightarrow> Leaf u
      | Inr None \<Rightarrow>
          (case get_actions_by ord s of
             Inl e \<Rightarrow> Leaf 0
           | Inr as \<Rightarrow>
               Node (map (\<lambda>a. (a, tree_of ord p (\<not> maxi)
                                   (s[a := Some (if maxi then p else other p)]))) as)))"
  by pat_completeness auto
termination
proof (relation "measure (\<lambda>(ord, p, maxi, s). blanks s)", goal_cases)
  case 1
  show ?case by simp
next
  case (2 ord p maxi s u as a)
  then have "a < length s" "s ! a = None"
    by (auto dest: set_get_actions_by)
  from blanks_update[OF this] show ?case
    by (metis (no_types, lifting) case_prod_conv in_measure lessI)
qed

declare tree_of.simps [simp del]

section \<open>Alpha-beta on trees\<close>

text \<open>
  What a search with the window \<open>(al, be)\<close> promises about its result \<open>r\<close> when the true
  value is \<open>v\<close>: below the window \<open>r\<close> is an upper bound of \<open>v\<close>, above it a lower bound,
  inside it the value itself.
\<close>

definition fish :: "('a::linorder) \<Rightarrow> 'a \<Rightarrow> 'a \<Rightarrow> 'a \<Rightarrow> bool" where
  "fish al be v r = ((r \<le> al \<longrightarrow> v \<le> r) \<and> (al < r \<and> r < be \<longrightarrow> r = v) \<and> (be \<le> r \<longrightarrow> r \<le> v))"

lemma max_step:
  fixes al be v M x v2 :: "'a::linorder"
  assumes "al < be" "v < be" "v \<le> al \<longrightarrow> M \<le> v" "al < v \<longrightarrow> v = M"
    "fish (max al v) be x v2" "max v v2 < be"
  shows "max v v2 \<le> al \<longrightarrow> max M x \<le> max v v2" and "al < max v v2 \<longrightarrow> max v v2 = max M x"
  using assms by (auto simp: fish_def max_def split: if_splits)

lemma max_cut:
  fixes al be v M x v2 :: "'a::linorder"
  assumes "al < be" "v < be" "fish (max al v) be x v2" "be \<le> max v v2" "max M x \<le> Z"
  shows "fish al be Z (max v v2)"
  using assms by (auto simp: fish_def max_def split: if_splits)

lemma min_step:
  fixes al be v M x v2 :: "'a::linorder"
  assumes "al < be" "al < v" "be \<le> v \<longrightarrow> v \<le> M" "v < be \<longrightarrow> v = M"
    "fish al (min be v) x v2" "al < min v v2"
  shows "be \<le> min v v2 \<longrightarrow> min v v2 \<le> min M x" and "min v v2 < be \<longrightarrow> min v v2 = min M x"
  using assms by (auto simp: fish_def min_def split: if_splits)

lemma min_cut:
  fixes al be v M x v2 :: "'a::linorder"
  assumes "al < be" "al < v" "fish al (min be v) x v2" "min v v2 \<le> al" "Z \<le> min M x"
  shows "fish al be Z (min v v2)"
  using assms by (auto simp: fish_def min_def split: if_splits)

lemma MInf_least [simp]: "MInf \<le> (x::'a::linorder ext)"
  by simp

lemma PInf_greatest [simp]: "(x::'a::linorder ext) \<le> PInf"
  by (cases x) simp_all

lemma le_MInf_iff [simp]: "x \<le> MInf \<longleftrightarrow> x = (MInf::'a::linorder ext)"
  by (cases x) simp_all

lemma PInf_le_iff [simp]: "PInf \<le> x \<longleftrightarrow> x = (PInf::'a::linorder ext)"
  by (cases x) simp_all

lemma MInf_less_iff [simp]: "MInf < x \<longleftrightarrow> x \<noteq> (MInf::'a::linorder ext)"
  by (cases x) (simp_all add: less_ext_def)

lemma less_PInf_iff [simp]: "x < PInf \<longleftrightarrow> x \<noteq> (PInf::'a::linorder ext)"
  by (cases x) (simp_all add: less_ext_def)

lemma not_less_MInf [simp]: "\<not> x < (MInf::'a::linorder ext)"
  by (simp add: less_ext_def)

lemma not_PInf_less [simp]: "\<not> (PInf::'a::linorder ext) < x"
  by (simp add: less_ext_def)

lemma max_MInf [simp]: "max al MInf = (al::'a::linorder ext)"
  by (simp add: max_absorb1) 

lemma min_PInf [simp]: "min be PInf = (be::'a::linorder ext)"
  by (simp add: min_absorb1)

lemma mm_maxs_ge: "fst r \<le> fst (mm_maxs ts r)"
proof (induction ts arbitrary: r)
  case Nil
  show ?case by simp
next
  case (Cons x ts)
  obtain a t where x: "x = (a, t)" by (cases x)
  have "fst r \<le> fst (if fst (mm_min t) > fst r then (fst (mm_min t), Some a) else r)"
    by auto
  also have "\<dots> \<le> fst (mm_maxs (x # ts) r)"
    using Cons.IH by (simp add: x)
  finally show ?case .
qed 

lemma mm_mins_le: "fst (mm_mins ts r) \<le> fst r"
proof (induction ts arbitrary: r)
  case Nil
  show ?case by simp
next
  case (Cons x ts)
  obtain a t where x: "x = (a, t)" by (cases x)
  have "fst (mm_mins (x # ts) r) \<le> fst (if fst (mm_max t) < fst r then (fst (mm_max t), Some a) else r)"
    using Cons.IH by (simp add: x)
  also have "\<dots> \<le> fst r"
    by auto
  finally show ?case .
qed

lemma ab_maxs_fish:
  assumes IH: "\<And>a t al be. (a, t) \<in> set ts \<Longrightarrow> al < be \<Longrightarrow>
                 fish al be (fst (mm_min t)) (fst (fst (ab_min al be t)))"
    and "al < be" "fst r < be" "fst r \<le> al \<longrightarrow> fst R \<le> fst r" "al < fst r \<longrightarrow> fst r = fst R"
  shows "fish al be (fst (mm_maxs ts R)) (fst (fst (ab_maxs (max al (fst r)) be ts r)))"
  using assms
proof (induction ts arbitrary: r R)
  case Nil
  then show ?case by (auto simp: fish_def)
next
  case (Cons x ts)
  obtain a t where x: "x = (a, t)" by (cases x)
  define x' where "x' = fst (mm_min t)"
  define v2 where "v2 = fst (fst (ab_min (max al (fst r)) be t))"
  define n where "n = snd (ab_min (max al (fst r)) be t)"
  define R' where "R' = (if x' > fst R then (x', Some a) else R)"
  define r' where "r' = (if v2 > fst r then (v2, Some a) else r)"
  have fR': "fst R' = max (fst R) x'" by (auto simp: R'_def max_def)
  have fr': "fst r' = max (fst r) v2" by (auto simp: r'_def max_def)
  have w: "max al (fst r) < be" using Cons.prems by simp
  have f: "fish (max al (fst r)) be x' v2"
    unfolding x'_def v2_def by (rule Cons.prems(1)[of a t, OF _ w]) (simp add: x)
  have mm: "mm_maxs (x # ts) R = mm_maxs ts R'"
    by (simp add: x R'_def x'_def)
  have al': "(if v2 > fst r then max (max al (fst r)) v2 else max al (fst r)) = max al (fst r')"
    by (auto simp: fr' max_def)
  have step: "fst (fst (ab_maxs (max al (fst r)) be (x # ts) r)) =
      (if be \<le> fst r' then fst r' else fst (fst (ab_maxs (max al (fst r')) be ts r')))"
  proof (cases "fst r < v2")
    case True
    then have "max (max al (fst r)) v2 = max al v2"
      by (simp add: max.assoc max_absorb2)
    with True show ?thesis
      unfolding r'_def v2_def by (simp add: x split_beta Let_def)
  next
    case False
    then show ?thesis
      unfolding r'_def v2_def by (simp add: x split_beta Let_def)
  qed
  show ?case
  proof (cases "be \<le> fst r'")
    case True
    have "max (fst R) x' \<le> fst (mm_maxs ts R')"
      using mm_maxs_ge[of R' ts] by (simp add: fR')
    with max_cut[OF Cons.prems(2,3) f, of "fst R" "fst (mm_maxs ts R')"] True
    show ?thesis by (simp add: mm step fr')
  next
    case False
    then have lt: "max (fst r) v2 < be" by (simp add: fr' not_le)
    have "fish al be (fst (mm_maxs ts R')) (fst (fst (ab_maxs (max al (fst r')) be ts r')))"
    proof (rule Cons.IH)
      show "fish al' be' (fst (mm_min t')) (fst (fst (ab_min al' be' t')))"
        if "(a', t') \<in> set ts" "al' < be'" for a' t' al' be'
        using Cons.prems(1)[of a' t' al' be'] that by simp
      show "al < be" by fact
      show "fst r' < be" using lt by (simp add: fr')
      show "fst r' \<le> al \<longrightarrow> fst R' \<le> fst r'"
        using max_step(1)[OF Cons.prems(2,3,4,5) f lt] by (simp add: fr' fR')
      show "al < fst r' \<longrightarrow> fst r' = fst R'"
        using max_step(2)[OF Cons.prems(2,3,4,5) f lt] by (simp add: fr' fR')
    qed
    with False show ?thesis by (simp add: mm step)
  qed
qed

lemma ab_mins_fish:
  assumes IH: "\<And>a t al be. (a, t) \<in> set ts \<Longrightarrow> al < be \<Longrightarrow>
                 fish al be (fst (mm_max t)) (fst (fst (ab_max al be t)))"
    and "al < be" "al < fst r" "be \<le> fst r \<longrightarrow> fst r \<le> fst R" "fst r < be \<longrightarrow> fst r = fst R"
  shows "fish al be (fst (mm_mins ts R)) (fst (fst (ab_mins al (min be (fst r)) ts r)))"
  using assms
proof (induction ts arbitrary: r R)
  case Nil
  then show ?case by (auto simp: fish_def)
next
  case (Cons x ts)
  obtain a t where x: "x = (a, t)" by (cases x)
  define x' where "x' = fst (mm_max t)"
  define v2 where "v2 = fst (fst (ab_max al (min be (fst r)) t))"
  define R' where "R' = (if x' < fst R then (x', Some a) else R)"
  define r' where "r' = (if v2 < fst r then (v2, Some a) else r)"
  have fR': "fst R' = min (fst R) x'" by (auto simp: R'_def min_def)
  have fr': "fst r' = min (fst r) v2" by (auto simp: r'_def min_def)
  have w: "al < min be (fst r)" using Cons.prems by simp
  have f: "fish al (min be (fst r)) x' v2"
    unfolding x'_def v2_def by (rule Cons.prems(1)[of a t, OF _ w]) (simp add: x)
  have mm: "mm_mins (x # ts) R = mm_mins ts R'"
    by (simp add: x R'_def x'_def)
  have be': "(if v2 < fst r then min (min be (fst r)) v2 else min be (fst r)) = min be (fst r')"
    by (auto simp: fr' min_def)
  have step: "fst (fst (ab_mins al (min be (fst r)) (x # ts) r)) =
      (if fst r' \<le> al then fst r' else fst (fst (ab_mins al (min be (fst r')) ts r')))"
  proof (cases "v2 < fst r")
    case True
    then have "min (min be (fst r)) v2 = min be v2"
      by (simp add: min.assoc min_absorb2)
    with True show ?thesis
      unfolding r'_def v2_def by (simp add: x split_beta Let_def)
  next
    case False
    then show ?thesis
      unfolding r'_def v2_def by (simp add: x split_beta Let_def)
  qed
  show ?case
  proof (cases "fst r' \<le> al")
    case True
    have "fst (mm_mins ts R') \<le> min (fst R) x'"
      using mm_mins_le[of ts R'] by (simp add: fR')
    with min_cut[OF Cons.prems(2,3) f, of "fst (mm_mins ts R')" "fst R"] True
    show ?thesis by (simp add: mm step fr')
  next
    case False
    then have lt: "al < min (fst r) v2" by (simp add: fr' not_le)
    have "fish al be (fst (mm_mins ts R')) (fst (fst (ab_mins al (min be (fst r')) ts r')))"
    proof (rule Cons.IH)
      show "fish al' be' (fst (mm_max t')) (fst (fst (ab_max al' be' t')))"
        if "(a', t') \<in> set ts" "al' < be'" for a' t' al' be'
        using Cons.prems(1)[of a' t' al' be'] that by simp
      show "al < be" by fact
      show "al < fst r'" using lt by (simp add: fr')
      show "be \<le> fst r' \<longrightarrow> fst r' \<le> fst R'"
        using min_step(1)[OF Cons.prems(2,3,4,5) f lt] by (simp add: fr' fR')
      show "fst r' < be \<longrightarrow> fst r' = fst R'"
        using min_step(2)[OF Cons.prems(2,3,4,5) f lt] by (simp add: fr' fR')
    qed
    with False show ?thesis by (simp add: mm step)
  qed
qed

lemma ab_fish:
  "al < be \<Longrightarrow> fish al be (fst (mm_max t)) (fst (fst (ab_max al be t))) \<and>
             fish al be (fst (mm_min t)) (fst (fst (ab_min al be t)))"
proof (induction t arbitrary: al be)
  case (Leaf u)
  then show ?case by (simp add: fish_def)
next
  case (Node ts)
  have c: "fish al' be' (fst (mm_max t)) (fst (fst (ab_max al' be' t)))"
          "fish al' be' (fst (mm_min t)) (fst (fst (ab_min al' be' t)))"
    if "(a, t) \<in> set ts" "al' < be'" for a t al' be'
    using Node.IH[of "(a, t)" t al' be'] that by simp_all
  have "fish al be (fst (mm_maxs ts (MInf, None))) (fst (fst (ab_maxs (max al (fst (MInf, None::nat option))) be ts (MInf, None))))"
    using Node.prems by (intro ab_maxs_fish c(2)) auto
  moreover
  have "fish al be (fst (mm_mins ts (PInf, None))) (fst (fst (ab_mins al (min be (fst (PInf, None::nat option))) ts (PInf, None))))"
    using Node.prems by (intro ab_mins_fish c(1)) auto
  ultimately show ?case
    by (simp add: split_beta)
qed

lemma fish_full: "fish MInf PInf v r \<Longrightarrow> r = (v::'a::linorder ext)"
  by (cases r; cases v) (auto simp: fish_def)

lemma ab_max_value: "fst (fst (ab_max MInf PInf t)) = fst (mm_max t)"
  by (rule fish_full) (simp add: ab_fish)

section \<open>The searches compute the tree functions\<close>

text \<open>The labelled subtrees of a board that is not terminal.\<close>

definition kids :: "action_order \<Rightarrow> player \<Rightarrow> bool \<Rightarrow> board \<Rightarrow> nat list \<Rightarrow> (nat \<times> tree) list" where
  "kids ord p maxi s as =
     map (\<lambda>a. (a, tree_of ord p (\<not> maxi) (s[a := Some (if maxi then p else other p)]))) as"

lemma kids_simps [simp]:
  "kids ord p maxi s [] = []"
  "kids ord p maxi s (a # as) =
     (a, tree_of ord p (\<not> maxi) (s[a := Some (if maxi then p else other p)])) # kids ord p maxi s as"
  by (simp_all add: kids_def)

lemma other_simps [simp]: "other PX = PO" "other PO = PX" "other (other p) = p" "other p \<noteq> p"
  by (cases p; simp add: other_def)+

lemma check_win_ok: "length s = 9 \<Longrightarrow> \<exists>g. check_win s = Inr g"
  by (simp add: check_win_def split: option.splits)

lemma utility_ok: "length s = 9 \<Longrightarrow> \<exists>u. utility s p = Inr u"
  using check_win_ok[of s] by (auto simp: utility_def)

lemma utility_Inr_length: "utility s p = Inr u \<Longrightarrow> length s = 9"
  by (auto simp: utility_def check_win_def split: sum.splits if_splits)

lemma get_actions_by_ok: "length s = 9 \<Longrightarrow> \<exists>as. get_actions_by ord s = Inr as"
  by (cases ord)
    (auto simp: get_actions_by_def get_actions_priority_def Let_def list_ex_iff priority_def
      set_get_actions)

lemma utility_None_iff: "utility s p = Inr None \<longleftrightarrow> check_win s = Inr Next"
proof (cases "check_win s")
  case (Inl e)
  then show ?thesis by (simp add: utility_def)
next
  case (Inr g)
  show ?thesis
  proof (cases g)
    case (Won q)
    with Inr show ?thesis
      by (cases q; cases p) (simp_all add: utility_def other_def)
  qed (simp_all add: Inr utility_def)
qed

lemma utility_None_actions:
  assumes "utility s p = Inr None" "get_actions_by ord s = Inr as"
  shows "as \<noteq> []"
proof -
  from assms(1) have "check_win s = Inr Next"
    by (simp add: utility_None_iff)
  then have "filter (\<lambda>c. c = None) s \<noteq> []"
    by (auto simp: check_win_def split: if_splits option.splits)
  then obtain c where "c \<in> set s" "c = None"
    by (metis (mono_tags, lifting) filter_False)
  then obtain i where "i < length s" "s ! i = None"
    by (auto simp: in_set_conv_nth)
  then have "i \<in> set as"
    using set_get_actions_by[OF assms(2)] by simp
  then show ?thesis by auto
qed

lemma tree_of_Node:
  "utility s p = Inr None \<Longrightarrow> get_actions_by ord s = Inr as \<Longrightarrow>
   tree_of ord p maxi s = Node (kids ord p maxi s as)"
  by (simp add: tree_of.simps[of ord p maxi s] kids_def)

lemma tree_of_Leaf: "utility s p = Inr (Some u) \<Longrightarrow> tree_of ord p maxi s = Leaf u"
  by (simp add: tree_of.simps[of ord p maxi s])

lemma max_loop_refine:
  assumes "\<And>a c. a \<in> set as \<Longrightarrow> a < length s \<and>
             min_value ord (s[a := Some p]) p c =
               Inr (mm_min (tree_of ord p False (s[a := Some p])),
                    c + nodes (tree_of ord p False (s[a := Some p])))"
  shows "for_each as
           (\<lambda>a ((v, m), c).
              case result s p a of
                Inl e \<Rightarrow> Raise e
              | Inr child \<Rightarrow>
                  (case min_value ord child p c of
                     Inl e \<Rightarrow> Raise e
                   | Inr ((v2, a2), c') \<Rightarrow>
                       if v2 > v then Continue ((v2, Some a), c') else Continue ((v, m), c')))
           (r, c) =
         Continue (mm_maxs (kids ord p True s as) r, c + nodess (kids ord p True s as))"
    (is "for_each _ ?body _ = _")
  using assms
proof (induction as arbitrary: r c)
  case Nil
  show ?case by simp
next
  case (Cons a as)
  define T where "T = tree_of ord p False (s[a := Some p])"
  define r' where "r' = (if fst (mm_min T) > fst r then (fst (mm_min T), Some a) else r)"
  from Cons.prems[of a] have res: "result s p a = Inr (s[a := Some p])"
    and mv: "\<And>c. min_value ord (s[a := Some p]) p c = Inr (mm_min T, c + nodes T)"
    by (simp_all add: result_def T_def)
  have step: "?body a (r, c) = Continue (r', c + nodes T)"
    by (cases r; cases "mm_min T") (simp add: res mv r'_def)
  have "for_each (a # as) ?body (r, c) = for_each as ?body (r', c + nodes T)"
    by (simp only: for_each.simps step flow.case)
  also have "\<dots> = Continue (mm_maxs (kids ord p True s as) r',
                              c + nodes T + nodess (kids ord p True s as))"
    by (rule Cons.IH) (simp add: Cons.prems)
  finally show ?case
    by (simp add: r'_def T_def add.assoc)
qed

lemma min_loop_refine:
  assumes "\<And>a c. a \<in> set as \<Longrightarrow> a < length s \<and>
             max_value ord (s[a := Some (other p)]) p c =
               Inr (mm_max (tree_of ord p True (s[a := Some (other p)])),
                    c + nodes (tree_of ord p True (s[a := Some (other p)])))"
  shows "for_each as
           (\<lambda>a ((v, m), c).
              case result s (other p) a of
                Inl e \<Rightarrow> Raise e
              | Inr child \<Rightarrow>
                  (case max_value ord child p c of
                     Inl e \<Rightarrow> Raise e
                   | Inr ((v2, a2), c') \<Rightarrow>
                       if v2 < v then Continue ((v2, Some a), c') else Continue ((v, m), c')))
           (r, c) =
         Continue (mm_mins (kids ord p False s as) r, c + nodess (kids ord p False s as))"
    (is "for_each _ ?body _ = _")
  using assms
proof (induction as arbitrary: r c)
  case Nil
  show ?case by simp
next
  case (Cons a as)
  define T where "T = tree_of ord p True (s[a := Some (other p)])"
  define r' where "r' = (if fst (mm_max T) < fst r then (fst (mm_max T), Some a) else r)"
  from Cons.prems[of a] have res: "result s (other p) a = Inr (s[a := Some (other p)])"
    and mv: "\<And>c. max_value ord (s[a := Some (other p)]) p c = Inr (mm_max T, c + nodes T)"
    by (simp_all add: result_def T_def)
  have step: "?body a (r, c) = Continue (r', c + nodes T)"
    by (cases r; cases "mm_max T") (simp add: res mv r'_def)
  have "for_each (a # as) ?body (r, c) = for_each as ?body (r', c + nodes T)"
    by (simp only: for_each.simps step flow.case)
  also have "\<dots> = Continue (mm_mins (kids ord p False s as) r',
                              c + nodes T + nodess (kids ord p False s as))"
    by (rule Cons.IH) (simp add: Cons.prems)
  finally show ?case
    by (simp add: r'_def T_def add.assoc)
qed

lemma legal_child:
  assumes "get_actions_by ord s = Inr as" "a \<in> set as"
  shows "a < length s" "blanks (s[a := Some q]) < blanks s" "length (s[a := Some q]) = length s"
proof -
  from assms have a: "a < length s" "s ! a = None"
    by (auto dest: set_get_actions_by)
  show "a < length s" by fact
  from blanks_update[OF a, of q] show "blanks (s[a := Some q]) < blanks s" by simp
  show "length (s[a := Some q]) = length s" by simp
qed

lemma minimax_refine:
  "length s = 9 \<Longrightarrow>
     max_value ord s p c = Inr (mm_max (tree_of ord p True s), c + nodes (tree_of ord p True s)) \<and>
     min_value ord s p c = Inr (mm_min (tree_of ord p False s), c + nodes (tree_of ord p False s))"
proof (induction "blanks s" arbitrary: s c rule: less_induct)
  case less
  from utility_ok[OF less.prems] obtain u where u: "utility s p = Inr u" by blast
  show ?case
  proof (cases u)
    case (Some v)
    with u show ?thesis
      by (simp add: max_value.simps[of ord s p c] min_value.simps[of ord s p c] tree_of_Leaf)
  next
    case None
    from get_actions_by_ok[OF less.prems] obtain as where as: "get_actions_by ord s = Inr as"
      by blast
    note ch = legal_child[OF as]
    have tn: "tree_of ord p maxi s = Node (kids ord p maxi s as)" for maxi
      using u None as by (simp add: tree_of_Node)
    have "a < length s \<and> min_value ord (s[a := Some p]) p d =
               Inr (mm_min (tree_of ord p False (s[a := Some p])),
                    d + nodes (tree_of ord p False (s[a := Some p])))"
      if "a \<in> set as" for a d
    proof -
      have "blanks (s[a := Some p]) < blanks s" "length (s[a := Some p]) = 9"
        using ch(2,3)[OF that, of p] less.prems by simp_all
      from less.hyps[OF this] ch(1)[OF that] show ?thesis by simp
    qed
    note l1 = max_loop_refine[OF this]
    have "a < length s \<and> max_value ord (s[a := Some (other p)]) p d =
               Inr (mm_max (tree_of ord p True (s[a := Some (other p)])),
                    d + nodes (tree_of ord p True (s[a := Some (other p)])))"
      if "a \<in> set as" for a d
    proof -
      have "blanks (s[a := Some (other p)]) < blanks s" "length (s[a := Some (other p)]) = 9"
        using ch(2,3)[OF that, of "other p"] less.prems by simp_all
      from less.hyps[OF this] ch(1)[OF that] show ?thesis by simp
    qed
    note l2 = min_loop_refine[OF this]
    show ?thesis
      using u None as
      by (simp add: max_value.simps[of ord s p c] min_value.simps[of ord s p c] l1 l2 tn)
  qed
qed

lemma ab_max_loop_refine:
  assumes "\<And>a al be c. a \<in> set as \<Longrightarrow> a < length s \<and>
             min_value_ab ord (s[a := Some p]) p al be c =
               Inr (fst (ab_min al be (tree_of ord p False (s[a := Some p]))),
                    c + snd (ab_min al be (tree_of ord p False (s[a := Some p]))))"
  shows "(case for_each as
           (\<lambda>a ((v, m), alpha, c).
              case result s p a of
                Inl e \<Rightarrow> Raise e
              | Inr child \<Rightarrow>
                  (case min_value_ab ord child p alpha beta c of
                     Inl e \<Rightarrow> Raise e
                   | Inr ((v2, a2), c') \<Rightarrow>
                       let (v, m, alpha) =
                             (if v2 > v then (v2, Some a, max alpha v2) else (v, m, alpha))
                       in if v \<ge> beta then Return ((v, m), c')
                          else Continue ((v, m), alpha, c')))
           (r, al, c) of
            Continue ((v, m), alpha, c) \<Rightarrow> Inr ((v, m), c)
          | Return r \<Rightarrow> Inr r
          | Raise e \<Rightarrow> Inl e) =
         Inr (fst (ab_maxs al beta (kids ord p True s as) r),
              c + snd (ab_maxs al beta (kids ord p True s as) r))"
    (is "(case for_each _ ?body _ of Continue ((v, m), alpha, c) \<Rightarrow> ?C v m alpha c | Return r \<Rightarrow> ?R r | Raise e \<Rightarrow> ?E e) = _")
  using assms
proof (induction as arbitrary: r al c)
  case Nil
  show ?case by (cases r) simp
next
  case (Cons a as)
  define T where "T = tree_of ord p False (s[a := Some p])"
  define v2 where "v2 = fst (fst (ab_min al beta T))"
  define n where "n = snd (ab_min al beta T)"
  define r' where "r' = (if v2 > fst r then (v2, Some a) else r)"
  define al' where "al' = (if v2 > fst r then max al v2 else al)"
  from Cons.prems[of a] have res: "result s p a = Inr (s[a := Some p])"
    and mv: "\<And>al be c. min_value_ab ord (s[a := Some p]) p al be c =
               Inr (fst (ab_min al be T), c + snd (ab_min al be T))"
    by (simp_all add: result_def T_def)
  have step: "?body a (r, al, c) =
      (if beta \<le> fst r' then Return (r', c + n) else Continue (r', al', c + n))"
    by (cases r; cases "ab_min al beta T"; cases "fst (ab_min al beta T)")
      (simp add: res mv r'_def al'_def v2_def n_def)
  have tr: "ab_maxs al beta (kids ord p True s (a # as)) r =
      (if beta \<le> fst r' then (r', n)
       else (fst (ab_maxs al' beta (kids ord p True s as) r'),
             n + snd (ab_maxs al' beta (kids ord p True s as) r')))"
    by (simp add: T_def[symmetric] split_beta Let_def r'_def al'_def v2_def n_def)
  show ?case
  proof (cases "beta \<le> fst r'")
    case True
    then show ?thesis
      by (simp only: for_each.simps step tr if_True flow.case fst_conv snd_conv)
  next
    case False
    have "(case for_each (a # as) ?body (r, al, c) of
             Continue ((v, m), alpha, c) \<Rightarrow> ?C v m alpha c | Return r \<Rightarrow> ?R r | Raise e \<Rightarrow> ?E e) =
          (case for_each as ?body (r', al', c + n) of
             Continue ((v, m), alpha, c) \<Rightarrow> ?C v m alpha c | Return r \<Rightarrow> ?R r | Raise e \<Rightarrow> ?E e)"
      using False by (simp only: for_each.simps step if_False flow.case)
    also have "\<dots> = Inr (fst (ab_maxs al' beta (kids ord p True s as) r'),
              c + n + snd (ab_maxs al' beta (kids ord p True s as) r'))"
      by (rule Cons.IH) (simp add: Cons.prems)
    finally show ?thesis
      using False by (simp only: tr if_False fst_conv snd_conv add.assoc)
  qed
qed

lemma ab_min_loop_refine:
  assumes "\<And>a al be c. a \<in> set as \<Longrightarrow> a < length s \<and>
             max_value_ab ord (s[a := Some (other p)]) p al be c =
               Inr (fst (ab_max al be (tree_of ord p True (s[a := Some (other p)]))),
                    c + snd (ab_max al be (tree_of ord p True (s[a := Some (other p)]))))"
  shows "(case for_each as
           (\<lambda>a ((v, m), beta, c).
              case result s (other p) a of
                Inl e \<Rightarrow> Raise e
              | Inr child \<Rightarrow>
                  (case max_value_ab ord child p alpha beta c of
                     Inl e \<Rightarrow> Raise e
                   | Inr ((v2, a2), c') \<Rightarrow>
                       let (v, m, beta) =
                             (if v2 < v then (v2, Some a, min beta v2) else (v, m, beta))
                       in if v \<le> alpha then Return ((v, m), c')
                          else Continue ((v, m), beta, c')))
           (r, be, c) of
            Continue ((v, m), beta, c) \<Rightarrow> Inr ((v, m), c)
          | Return r \<Rightarrow> Inr r
          | Raise e \<Rightarrow> Inl e) =
         Inr (fst (ab_mins alpha be (kids ord p False s as) r),
              c + snd (ab_mins alpha be (kids ord p False s as) r))"
    (is "(case for_each _ ?body _ of Continue ((v, m), beta, c) \<Rightarrow> ?C v m beta c | Return r \<Rightarrow> ?R r | Raise e \<Rightarrow> ?E e) = _")
  using assms
proof (induction as arbitrary: r be c)
  case Nil
  show ?case by (cases r) simp
next
  case (Cons a as)
  define T where "T = tree_of ord p True (s[a := Some (other p)])"
  define v2 where "v2 = fst (fst (ab_max alpha be T))"
  define n where "n = snd (ab_max alpha be T)"
  define r' where "r' = (if v2 < fst r then (v2, Some a) else r)"
  define be' where "be' = (if v2 < fst r then min be v2 else be)"
  from Cons.prems[of a] have res: "result s (other p) a = Inr (s[a := Some (other p)])"
    and mv: "\<And>al be c. max_value_ab ord (s[a := Some (other p)]) p al be c =
               Inr (fst (ab_max al be T), c + snd (ab_max al be T))"
    by (simp_all add: result_def T_def)
  have step: "?body a (r, be, c) =
      (if fst r' \<le> alpha then Return (r', c + n) else Continue (r', be', c + n))"
    by (cases r; cases "ab_max alpha be T"; cases "fst (ab_max alpha be T)")
      (simp add: res mv r'_def be'_def v2_def n_def)
  have tr: "ab_mins alpha be (kids ord p False s (a # as)) r =
      (if fst r' \<le> alpha then (r', n)
       else (fst (ab_mins alpha be' (kids ord p False s as) r'),
             n + snd (ab_mins alpha be' (kids ord p False s as) r')))"
    by (simp add: T_def[symmetric] split_beta Let_def r'_def be'_def v2_def n_def)
  show ?case
  proof (cases "fst r' \<le> alpha")
    case True
    then show ?thesis
      by (simp only: for_each.simps step tr if_True flow.case fst_conv snd_conv)
  next
    case False
    have "(case for_each (a # as) ?body (r, be, c) of
             Continue ((v, m), beta, c) \<Rightarrow> ?C v m beta c | Return r \<Rightarrow> ?R r | Raise e \<Rightarrow> ?E e) =
          (case for_each as ?body (r', be', c + n) of
             Continue ((v, m), beta, c) \<Rightarrow> ?C v m beta c | Return r \<Rightarrow> ?R r | Raise e \<Rightarrow> ?E e)"
      using False by (simp only: for_each.simps step if_False flow.case)
    also have "\<dots> = Inr (fst (ab_mins alpha be' (kids ord p False s as) r'),
              c + n + snd (ab_mins alpha be' (kids ord p False s as) r'))"
      by (rule Cons.IH) (simp add: Cons.prems)
    finally show ?thesis
      using False by (simp only: tr if_False fst_conv snd_conv add.assoc)
  qed
qed

lemma alpha_beta_refine:
  "length s = 9 \<Longrightarrow>
     max_value_ab ord s p al be c =
       Inr (fst (ab_max al be (tree_of ord p True s)), c + snd (ab_max al be (tree_of ord p True s))) \<and>
     min_value_ab ord s p al be c =
       Inr (fst (ab_min al be (tree_of ord p False s)), c + snd (ab_min al be (tree_of ord p False s)))"
proof (induction "blanks s" arbitrary: s al be c rule: less_induct)
  case less
  from utility_ok[OF less.prems] obtain u where u: "utility s p = Inr u" by blast
  show ?case
  proof (cases u)
    case (Some v)
    with u show ?thesis
      by (simp add: max_value_ab.simps[of ord s p al be c] min_value_ab.simps[of ord s p al be c]
          tree_of_Leaf)
  next
    case None
    from get_actions_by_ok[OF less.prems] obtain as where as: "get_actions_by ord s = Inr as"
      by blast
    note ch = legal_child[OF as]
    have tn: "tree_of ord p maxi s = Node (kids ord p maxi s as)" for maxi
      using u None as by (simp add: tree_of_Node)
    have "a < length s \<and> min_value_ab ord (s[a := Some p]) p al' be' d =
               Inr (fst (ab_min al' be' (tree_of ord p False (s[a := Some p]))),
                    d + snd (ab_min al' be' (tree_of ord p False (s[a := Some p]))))"
      if "a \<in> set as" for a al' be' d
    proof -
      have "blanks (s[a := Some p]) < blanks s" "length (s[a := Some p]) = 9"
        using ch(2,3)[OF that, of p] less.prems by simp_all
      from less.hyps[OF this] ch(1)[OF that] show ?thesis by simp
    qed
    note l1 = ab_max_loop_refine[OF this]
    have "a < length s \<and> max_value_ab ord (s[a := Some (other p)]) p al' be' d =
               Inr (fst (ab_max al' be' (tree_of ord p True (s[a := Some (other p)]))),
                    d + snd (ab_max al' be' (tree_of ord p True (s[a := Some (other p)]))))"
      if "a \<in> set as" for a al' be' d
    proof -
      have "blanks (s[a := Some (other p)]) < blanks s" "length (s[a := Some (other p)]) = 9"
        using ch(2,3)[OF that, of "other p"] less.prems by simp_all
      from less.hyps[OF this] ch(1)[OF that] show ?thesis by simp
    qed
    note l2 = ab_min_loop_refine[OF this]
    show ?thesis
      using u None as
      by (simp add: max_value_ab.simps[of ord s p al be c] min_value_ab.simps[of ord s p al be c]
          l1 l2 tn split_beta)
  qed
qed

lemma ab_nodess_le:
  assumes "\<forall>x \<in> set ts. \<forall>al be. snd (ab_max al be (snd x)) \<le> nodes (snd x) \<and>
                                  snd (ab_min al be (snd x)) \<le> nodes (snd x)"
  shows "snd (ab_maxs al be ts r) \<le> nodess ts \<and> snd (ab_mins al be ts r) \<le> nodess ts"
  using assms
proof (induction ts arbitrary: al be r)
  case Nil
  show ?case by simp
next
  case (Cons x ts)
  obtain a t where x: "x = (a, t)" by (cases x)
  have k: "snd (ab_max al'' be'' t) \<le> nodes t" "snd (ab_min al'' be'' t) \<le> nodes t"
    for al'' be''
    using Cons.prems by (simp_all add: x)
  have i: "snd (ab_maxs al'' be'' ts r'') \<le> nodess ts" "snd (ab_mins al'' be'' ts r'') \<le> nodess ts"
    for al'' be'' r''
    using Cons.IH[of al'' be'' r''] Cons.prems by simp_all
  show ?case
    by (simp add: x split_beta Let_def add_mono k i trans_le_add1)
qed

lemma ab_nodes_le:
  "snd (ab_max al be t) \<le> nodes t \<and> snd (ab_min al be t) \<le> nodes t"
proof (induction t arbitrary: al be)
  case (Leaf u)
  show ?case by simp
next
  case (Node ts)
  have "\<forall>x \<in> set ts. \<forall>al be. snd (ab_max al be (snd x)) \<le> nodes (snd x) \<and>
                                  snd (ab_min al be (snd x)) \<le> nodes (snd x)"
  proof (intro ballI allI)
    fix x al' be'
    assume x: "x \<in> set ts"
    obtain a t where "x = (a, t)" by (cases x)
    with x Node.IH[of "(a, t)" t al' be']
    show "snd (ab_max al' be' (snd x)) \<le> nodes (snd x) \<and>
          snd (ab_min al' be' (snd x)) \<le> nodes (snd x)"
      by simp
  qed
  from ab_nodess_le[OF this] show ?case
    by (simp add: split_beta)
qed

section \<open>The priority ordering\<close>

lemma perm9: "set [1, 3, 5, 7, 0, 2, 6, 8, 4::nat] = set [0..<9]"
  by code_simp

lemma zip_map_self: "zip (map f xs) xs = map (\<lambda>x. (f x, x)) xs"
  by (induction xs) simp_all

lemma priority_pairs_sorted:
  "sorted (map (\<lambda>i. (priority ! i, i)) [1, 3, 5, 7, 0, 2, 6, 8, 4::nat])"
  by code_simp

lemma sort_priority_pairs:
  assumes "length board = 9"
  shows "sort (rev (map (\<lambda>i. (priority ! i, i)) (get_actions board))) =
         map (\<lambda>i. (priority ! i, i)) (filter (\<lambda>i. board ! i = None) [1, 3, 5, 7, 0, 2, 6, 8, 4])"
    (is "sort (rev (map ?g ?A)) = map ?g (filter ?P ?L)")
proof (rule sorted_distinct_set_unique)
  have inj: "inj_on ?g X" for X
    by (auto simp: inj_on_def)
  show "sorted (sort (rev (map ?g ?A)))" by simp
  show "distinct (sort (rev (map ?g ?A)))"
    by (simp add: distinct_map inj get_actions_def)
  show "sorted (map ?g (filter ?P ?L))"
    by (rule sorted_filter[OF priority_pairs_sorted])
  show "distinct (map ?g (filter ?P ?L))"
    by (simp add: distinct_map inj)
  have "set ?A = set (filter ?P ?L)"
    by (simp only: get_actions_def assms set_filter perm9)
  then show "set (sort (rev (map ?g ?A))) = set (map ?g (filter ?P ?L))"
    by simp
qed

lemma map_snd_rev_pairs: "map snd (rev (map (\<lambda>x. (f x, x)) xs)) = rev xs"
  by (simp add: rev_map comp_def)

section \<open>The game-theoretic value\<close>

text \<open>
  The value of a position for the player \<open>p\<close> when \<open>q\<close> is to move, under optimal play
  by both sides (backward induction): the payoff \<open>utility\<close> gives when the game is over;
  otherwise the largest value among the positions \<open>q\<close> can move to when \<open>q\<close> is \<open>p\<close>, and
  the smallest when \<open>q\<close> is the opponent.  The legal moves are the blank cells, taken as a
  set: no enumeration order, no running best, no counter.
\<close>

definition legal :: "board \<Rightarrow> nat set" where
  "legal s = set (filter (\<lambda>i. s ! i = None) [0..<length s])"

lemma legal_iff: "a \<in> legal s \<longleftrightarrow> a < length s \<and> s ! a = None"
  by (auto simp: legal_def)

function game_value :: "player \<Rightarrow> player \<Rightarrow> board \<Rightarrow> int" where
  "game_value p q s =
     (case utility s p of
        Inl e \<Rightarrow> 0
      | Inr (Some u) \<Rightarrow> u
      | Inr None \<Rightarrow>
          if q = p then Max ((\<lambda>a. game_value p (other q) (s[a := Some q])) ` legal s)
          else Min ((\<lambda>a. game_value p (other q) (s[a := Some q])) ` legal s))"
  by pat_completeness auto
termination
proof (relation "measure (\<lambda>(p, q, s). blanks s)", goal_cases)
  case 1
  show ?case by simp
next
  case (2 p q s u a)
  then have "a < length s" "s ! a = None" by (simp_all add: legal_iff)
  from blanks_update[OF this, of q] show ?case by simp
next
  case (3 p q s u a)
  then have "a < length s" "s ! a = None" by (simp_all add: legal_iff)
  from blanks_update[OF this, of q] show ?case by simp
qed

declare game_value.simps [simp del]

lemma max_Fin [simp]: "max (Fin x) (Fin y) = Fin (max x (y::'a::linorder))"
  by (simp add: max_def)

lemma min_Fin [simp]: "min (Fin x) (Fin y) = Fin (min x (y::'a::linorder))"
  by (simp add: min_def)

lemma max_MInf_left [simp]: "max MInf x = (x::'a::linorder ext)"
  by (simp add: max_absorb2)

lemma min_PInf_left [simp]: "min PInf x = (x::'a::linorder ext)"
  by (simp add: min_absorb2)

lemma fold_max_Fin:
  "fold (\<lambda>a v. max v (Fin (g a))) as (Fin x) = Fin (Max (insert (x::int) (g ` set as)))"
proof (induction as arbitrary: x)
  case Nil
  show ?case by simp
next
  case (Cons a as)
  have "Max (insert (max x (g a)) (g ` set as)) = Max (insert x (insert (g a) (g ` set as)))"
    by (cases "g ` set as = {}") (simp_all add: max.assoc)
  then show ?case
    by (simp add: Cons.IH)
qed

lemma fold_min_Fin:
  "fold (\<lambda>a v. min v (Fin (g a))) as (Fin x) = Fin (Min (insert (x::int) (g ` set as)))"
proof (induction as arbitrary: x)
  case Nil
  show ?case by simp
next
  case (Cons a as)
  have "Min (insert (min x (g a)) (g ` set as)) = Min (insert x (insert (g a) (g ` set as)))"
    by (cases "g ` set as = {}") (simp_all add: min.assoc)
  then show ?case
    by (simp add: Cons.IH)
qed

lemma fold_max_MInf:
  "as \<noteq> [] \<Longrightarrow> fold (\<lambda>a v. max v (Fin (g a))) as MInf = Fin (Max ((g::'b \<Rightarrow> int) ` set as))"
  by (cases as) (simp_all add: fold_max_Fin)

lemma fold_min_PInf:
  "as \<noteq> [] \<Longrightarrow> fold (\<lambda>a v. min v (Fin (g a))) as PInf = Fin (Min ((g::'b \<Rightarrow> int) ` set as))"
  by (cases as) (simp_all add: fold_min_Fin)

lemma mm_maxs_fold:
  assumes "\<forall>a \<in> set as. fst (mm_min (T a)) = Fin (g a)"
  shows "fst (mm_maxs (map (\<lambda>a. (a, T a)) as) r) = fold (\<lambda>a v. max v (Fin (g a))) as (fst r)"
  using assms
proof (induction as arbitrary: r)
  case Nil
  show ?case by simp
next
  case (Cons a as)
  have "fst (if fst r < Fin (g a) then (Fin (g a), Some a) else r) = max (fst r) (Fin (g a))"
    by (auto simp: max_def)
  with Cons show ?case by simp
qed

lemma mm_mins_fold:
  assumes "\<forall>a \<in> set as. fst (mm_max (T a)) = Fin (g a)"
  shows "fst (mm_mins (map (\<lambda>a. (a, T a)) as) r) = fold (\<lambda>a v. min v (Fin (g a))) as (fst r)"
  using assms
proof (induction as arbitrary: r)
  case Nil
  show ?case by simp
next
  case (Cons a as)
  have "fst (if Fin (g a) < fst r then (Fin (g a), Some a) else r) = min (fst r) (Fin (g a))"
    by (auto simp: min_def)
  with Cons show ?case by simp
qed

lemma minimax_game_value:
  "length s = 9 \<Longrightarrow>
     fst (mm_max (tree_of ord p True s)) = Fin (game_value p p s) \<and>
     fst (mm_min (tree_of ord p False s)) = Fin (game_value p (other p) s)"
proof (induction "blanks s" arbitrary: s rule: less_induct)
  case less
  from utility_ok[OF less.prems] obtain u where u: "utility s p = Inr u" by blast
  show ?case
  proof (cases u)
    case (Some v)
    with u show ?thesis
      by (simp add: tree_of_Leaf game_value.simps[of p p s] game_value.simps[of p "other p" s])
  next
    case None
    from get_actions_by_ok[OF less.prems] obtain as where as: "get_actions_by ord s = Inr as"
      by blast
    note ch = legal_child[OF as]
    have ne: "as \<noteq> []"
      using utility_None_actions[OF _ as, of p] u None by simp
    have sa: "set as = legal s"
      unfolding set_get_actions_by[OF as] by (auto simp: legal_iff)
    have c1: "\<forall>a \<in> set as. fst (mm_min (tree_of ord p False (s[a := Some p]))) =
                Fin (game_value p (other p) (s[a := Some p]))"
    proof
      fix a assume a: "a \<in> set as"
      have "blanks (s[a := Some p]) < blanks s" "length (s[a := Some p]) = 9"
        using ch(2,3)[OF a, of p] less.prems by simp_all
      from less.hyps[OF this] show "fst (mm_min (tree_of ord p False (s[a := Some p]))) =
                Fin (game_value p (other p) (s[a := Some p]))" by simp
    qed
    have c2: "\<forall>a \<in> set as. fst (mm_max (tree_of ord p True (s[a := Some (other p)]))) =
                Fin (game_value p p (s[a := Some (other p)]))"
    proof
      fix a assume a: "a \<in> set as"
      have "blanks (s[a := Some (other p)]) < blanks s" "length (s[a := Some (other p)]) = 9"
        using ch(2,3)[OF a, of "other p"] less.prems by simp_all
      from less.hyps[OF this] show "fst (mm_max (tree_of ord p True (s[a := Some (other p)]))) =
                Fin (game_value p p (s[a := Some (other p)]))" by simp
    qed
    have un: "utility s p = Inr None" using u None by simp
    have k1: "kids ord p True s as = map (\<lambda>a. (a, tree_of ord p False (s[a := Some p]))) as"
      by (simp add: kids_def)
    have k2: "kids ord p False s as = map (\<lambda>a. (a, tree_of ord p True (s[a := Some (other p)]))) as"
      by (simp add: kids_def)
    have g1: "game_value p p s = Max ((\<lambda>a. game_value p (other p) (s[a := Some p])) ` set as)"
      by (subst game_value.simps) (simp add: un sa)
    have g2: "game_value p (other p) s = Min ((\<lambda>a. game_value p p (s[a := Some (other p)])) ` set as)"
      by (subst game_value.simps) (simp add: un sa)
    have "fst (mm_max (tree_of ord p True s)) =
          fst (mm_maxs (map (\<lambda>a. (a, tree_of ord p False (s[a := Some p]))) as) (MInf, None))"
      by (simp only: tree_of_Node[OF un as] k1 mm_max.simps)
    also have "\<dots> = fold (\<lambda>a v. max v (Fin (game_value p (other p) (s[a := Some p])))) as MInf"
      by (simp only: mm_maxs_fold[OF c1] fst_conv)
    also have "\<dots> = Fin (game_value p p s)"
      by (simp only: fold_max_MInf[OF ne] g1)
    finally have A: "fst (mm_max (tree_of ord p True s)) = Fin (game_value p p s)" .
    have "fst (mm_min (tree_of ord p False s)) =
          fst (mm_mins (map (\<lambda>a. (a, tree_of ord p True (s[a := Some (other p)]))) as) (PInf, None))"
      by (simp only: tree_of_Node[OF un as] k2 mm_min.simps)
    also have "\<dots> = fold (\<lambda>a v. min v (Fin (game_value p p (s[a := Some (other p)])))) as PInf"
      by (simp only: mm_mins_fold[OF c2] fst_conv)
    also have "\<dots> = Fin (game_value p (other p) s)"
      by (simp only: fold_min_PInf[OF ne] g2)
    finally have B: "fst (mm_min (tree_of ord p False s)) = Fin (game_value p (other p) s)" .
    from A B show ?thesis ..
  qed
qed

lemma mm_maxs_achieves:
  assumes "\<forall>a. snd r = Some a \<longrightarrow> (\<exists>t. (a, t) \<in> S \<and> fst (mm_min t) = fst r)"
    and "set ts \<subseteq> S"
  shows "\<forall>a. snd (mm_maxs ts r) = Some a \<longrightarrow>
             (\<exists>t. (a, t) \<in> S \<and> fst (mm_min t) = fst (mm_maxs ts r))"
  using assms
proof (induction ts arbitrary: r)
  case Nil
  then show ?case by simp
next
  case (Cons x ts)
  obtain b t where x: "x = (b, t)" by (cases x)
  define r' where "r' = (if fst (mm_min t) > fst r then (fst (mm_min t), Some b) else r)"
  have "\<forall>a. snd r' = Some a \<longrightarrow> (\<exists>t. (a, t) \<in> S \<and> fst (mm_min t) = fst r')"
    using Cons.prems by (auto simp: r'_def x)
  moreover have "set ts \<subseteq> S" using Cons.prems by simp
  ultimately have "\<forall>a. snd (mm_maxs ts r') = Some a \<longrightarrow>
             (\<exists>t. (a, t) \<in> S \<and> fst (mm_min t) = fst (mm_maxs ts r'))"
    by (rule Cons.IH)
  then show ?case by (simp add: x r'_def)
qed

lemma mm_maxs_keep:
  "snd r \<noteq> None \<Longrightarrow> snd (mm_maxs ts r) \<noteq> None"
proof (induction ts arbitrary: r)
  case Nil
  then show ?case by simp
next
  case (Cons x ts)
  obtain b t where x: "x = (b, t)" by (cases x)
  have "snd (if fst (mm_min t) > fst r then (fst (mm_min t), Some b) else r) \<noteq> None"
    using Cons.prems by simp
  from Cons.IH[OF this] show ?case by (simp add: x)
qed

lemma ab_maxs_keep:
  "snd r \<in> Some ` A \<Longrightarrow> fst ` set ts \<subseteq> A \<Longrightarrow> snd (fst (ab_maxs al be ts r)) \<in> Some ` A"
proof (induction ts arbitrary: r al)
  case Nil
  then show ?case by simp
next
  case (Cons x ts)
  obtain b t where x: "x = (b, t)" by (cases x)
  define v2 where "v2 = fst (fst (ab_min al be t))"
  define r' where "r' = (if v2 > fst r then (v2, Some b) else r)"
  define al' where "al' = (if v2 > fst r then max al v2 else al)"
  have r': "snd r' \<in> Some ` A"
    using Cons.prems by (auto simp: r'_def x)
  have ts: "fst ` set ts \<subseteq> A" using Cons.prems by simp
  have "fst (ab_maxs al be (x # ts) r) =
          (if be \<le> fst r' then r' else fst (ab_maxs al' be ts r'))"
    by (simp add: x split_beta Let_def r'_def al'_def v2_def)
  with r' Cons.IH[OF r' ts, of al'] show ?case
    by simp
qed

lemma ab_min_value: "fst (fst (ab_min MInf PInf t)) = fst (mm_min t)"
  by (rule fish_full) (simp add: ab_fish)

lemma kids_mem:
  "(a, t) \<in> set (kids ord p maxi s as) \<longleftrightarrow>
     a \<in> set as \<and> t = tree_of ord p (\<not> maxi) (s[a := Some (if maxi then p else other p)])"
  by (auto simp: kids_def)

lemma fst_kids: "fst ` set (kids ord p maxi s as) = set as"
  by (force simp: kids_def)

lemma root_moves:
  assumes len: "length s = 9" and un: "utility s p = Inr None"
    and as: "get_actions_by ord s = Inr as"
  shows "snd (mm_max (tree_of ord p True s)) \<in> Some ` set as"
    and "snd (fst (ab_max MInf PInf (tree_of ord p True s))) \<in> Some ` set as"
proof -
  from utility_None_actions[OF un as] obtain a as' where as': "as = a # as'"
    by (cases as) auto
  define c where "c = s[a := Some p]"
  define t where "t = tree_of ord p False c"
  have a: "a \<in> set as" by (simp add: as')
  have lc: "length c = 9" using len by (simp add: c_def)
  have v: "fst (mm_min t) = Fin (game_value p (other p) c)"
    using minimax_game_value[OF lc, of ord p] by (simp add: t_def)
  have k: "kids ord p True s as = (a, t) # kids ord p True s as'"
    by (simp add: as' t_def c_def)
  have tn: "tree_of ord p True s = Node ((a, t) # kids ord p True s as')"
    using tree_of_Node[OF un as, of True] by (simp only: k)
  have sub: "fst ` set (kids ord p True s as') \<subseteq> set as"
    by (auto simp: fst_kids as')
  have m0: "mm_max (Node ((a, t) # kids ord p True s as')) =
        mm_maxs (kids ord p True s as') (Fin (game_value p (other p) c), Some a)"
    by (simp add: v)
  have "snd (mm_max (tree_of ord p True s)) \<noteq> None"
    unfolding tn m0 by (rule mm_maxs_keep) simp
  moreover
  have "\<forall>b. snd (mm_maxs (kids ord p True s as) (MInf, None)) = Some b \<longrightarrow>
          (\<exists>t. (b, t) \<in> set (kids ord p True s as) \<and>
               fst (mm_min t) = fst (mm_maxs (kids ord p True s as) (MInf, None)))"
    by (rule mm_maxs_achieves) simp_all
  then have "\<forall>b. snd (mm_max (tree_of ord p True s)) = Some b \<longrightarrow> b \<in> set as"
    by (simp add: tree_of_Node[OF un as, of True] kids_mem)
  ultimately show "snd (mm_max (tree_of ord p True s)) \<in> Some ` set as"
    by (cases "snd (mm_max (tree_of ord p True s))") auto
  have a0: "fst (ab_max MInf PInf (Node ((a, t) # kids ord p True s as'))) =
        fst (ab_maxs (Fin (game_value p (other p) c)) PInf (kids ord p True s as')
               (Fin (game_value p (other p) c), Some a))"
    using v ab_min_value[of t] by (simp add: split_beta Let_def)
  show "snd (fst (ab_max MInf PInf (tree_of ord p True s))) \<in> Some ` set as"
    unfolding tn a0 by (rule ab_maxs_keep[OF _ sub]) (simp add: a)
qed

lemma mm_max_achieves:
  assumes len: "length s = 9" and un: "utility s p = Inr None"
    and as: "get_actions_by ord s = Inr as"
    and mv: "snd (mm_max (tree_of ord p True s)) = Some a"
  shows "game_value p (other p) (s[a := Some p]) = game_value p p s"
proof -
  have "\<forall>b. snd (mm_maxs (kids ord p True s as) (MInf, None)) = Some b \<longrightarrow>
          (\<exists>t. (b, t) \<in> set (kids ord p True s as) \<and>
               fst (mm_min t) = fst (mm_maxs (kids ord p True s as) (MInf, None)))"
    by (rule mm_maxs_achieves) simp_all
  with mv have *: "a \<in> set as" "fst (mm_min (tree_of ord p False (s[a := Some p]))) =
        fst (mm_max (tree_of ord p True s))"
    by (auto simp: tree_of_Node[OF un as, of True] kids_mem)
  have "length (s[a := Some p]) = 9" using len by simp
  from minimax_game_value[OF this, of ord p] minimax_game_value[OF len, of ord p] *(2)
  show ?thesis by simp
qed

lemma is_terminal_utility:
  "length s = 9 \<Longrightarrow> is_terminal s = Inr (utility s p \<noteq> Inr None)"
  using check_win_ok[of s] utility_None_iff[of s p]
  by (auto simp: is_terminal_def)

section \<open>Monte Carlo search with UCB1, depth 1\<close>

text \<open>
  The state of numpy's global random generator: the sequence of numbers it will draw and
  the number of draws made so far.  \<^verbatim>\<open>np.random.choice(xs)\<close> takes one draw and picks an
  element of \<open>xs\<close> with it; on an empty list it raises \<^verbatim>\<open>ValueError\<close>.  The theorems
  hold for every sequence of draws.
\<close>

type_synonym rng = "(nat \<Rightarrow> nat) \<times> nat"

definition choice :: "nat list \<Rightarrow> rng \<Rightarrow> error + (nat \<times> rng)" where
  "choice xs g =
     (if xs = [] then Inl ValueError
      else Inr (xs ! (fst g (snd g) mod length xs), (fst g, Suc (snd g))))"

lemma choice_mem: "choice xs g = Inr (a, g') \<Longrightarrow> a \<in> set xs"
  by (auto simp: choice_def split: if_splits)

text \<open>
  The \<^verbatim>\<open>while(True)\<close> of \<^verbatim>\<open>playout\<close>, with \<^verbatim>\<open>state\<close> and \<^verbatim>\<open>current_player\<close> as
  arguments, and \<^verbatim>\<open>playout\<close> itself, which first applies the given action for \<^verbatim>\<open>player\<close>.
  Both return the utility together with the generator after the call.
\<close>

function playout_loop :: "board \<Rightarrow> player \<Rightarrow> player \<Rightarrow> rng \<Rightarrow> error + (int \<times> rng)" where
  "playout_loop state player current_player g =
     (case utility state player of
        Inl e \<Rightarrow> Inl e
      | Inr (Some u) \<Rightarrow> Inr (u, g)
      | Inr None \<Rightarrow>
          (case choice (get_actions state) g of
             Inl e \<Rightarrow> Inl e
           | Inr (a, g') \<Rightarrow>
               (case result state current_player a of
                  Inl e \<Rightarrow> Inl e
                | Inr state' \<Rightarrow> playout_loop state' player (other current_player) g')))"
  by pat_completeness auto
termination
proof (relation "measure (\<lambda>(state, player, current_player, g). blanks state)", goal_cases)
  case 1
  show ?case by simp
next
  case (2 state player current_player g u ag a g' state')
  then have "a \<in> set (get_actions state)"
    by (auto dest: choice_mem)
  then have a: "a < length state" "state ! a = None"
    by (simp_all add: set_get_actions)
  with 2 have "state' = state[a := Some current_player]"
    by (simp add: result_def)
  with blanks_update[OF a, of current_player] show ?case
    by simp
qed

declare playout_loop.simps [simp del]

definition playout :: "board \<Rightarrow> nat \<Rightarrow> player \<Rightarrow> rng \<Rightarrow> error + (int \<times> rng)" where
  "playout state action player g =
     (case result state player action of
        Inl e \<Rightarrow> Inl e
      | Inr state' \<Rightarrow> playout_loop state' player (other player) g)"

text \<open>
  Python's \<^verbatim>\<open>max(xs)\<close> (\<^verbatim>\<open>ValueError\<close> on an empty list), \<^verbatim>\<open>xs.index(v)\<close> (the first
  position of \<open>v\<close>, \<^verbatim>\<open>ValueError\<close> when absent) and \<^verbatim>\<open>xs[i]\<close> for \<open>i \<ge> 0\<close>.
\<close>

definition py_max :: "('a::linorder) list \<Rightarrow> error + 'a" where
  "py_max xs = (case xs of [] \<Rightarrow> Inl ValueError | x # xs' \<Rightarrow> Inr (fold max xs' x))"

fun index :: "'a list \<Rightarrow> 'a \<Rightarrow> error + nat" where
  "index [] v = Inl ValueError"
| "index (x # xs) v =
     (if x = v then Inr 0 else case index xs v of Inl e \<Rightarrow> Inl e | Inr i \<Rightarrow> Inr (Suc i))"

definition getitem :: "'a list \<Rightarrow> nat \<Rightarrow> error + 'a" where
  "getitem xs i = (if i < length xs then Inr (xs ! i) else Inl IndexError)"

text \<open>
  \<^verbatim>\<open>UCT_depth1\<close>.  The locals \<^verbatim>\<open>u\<close>, \<^verbatim>\<open>n\<close>, \<^verbatim>\<open>n_parent\<close>, \<^verbatim>\<open>UCB1\<close> and the generator are
  the state of the \<^verbatim>\<open>for i in range(N)\<close> loop; \<open>UCT_body\<close> is its body, \<open>UCT_loop\<close> the
  initialisation and the loop, \<open>UCT_depth1\<close> the whole function.  \<^verbatim>\<open>range(N)\<close> is empty
  for \<open>N \<le> 0\<close>.  The floating-point value of
  \<^verbatim>\<open>u[a] / n[a] + C * math.sqrt(math.log(n_parent) / n[a])\<close> is not modelled: it is the
  parameter \<open>ucb1\<close>, a function of \<^verbatim>\<open>u[a]\<close>, \<^verbatim>\<open>n[a]\<close> and \<^verbatim>\<open>n_parent\<close> into any linear
  order, and \<^verbatim>\<open>+math.inf\<close> is \<open>PInf\<close>.  The \<^verbatim>\<open>DEBUG\<close> printing is not modelled.
\<close>

type_synonym 'f uct_state = "int list \<times> nat list \<times> nat \<times> 'f ext list \<times> rng"

definition UCT_body ::
  "(int \<Rightarrow> nat \<Rightarrow> nat \<Rightarrow> 'f::linorder) \<Rightarrow> board \<Rightarrow> player \<Rightarrow> nat list \<Rightarrow> nat \<Rightarrow>
   'f uct_state \<Rightarrow> ('f uct_state, nat \<times> rng) flow" where
  "UCT_body ucb1 board player actions i =
     (\<lambda>(u, n, n_parent, UCB1, g).
        case py_max UCB1 of
          Inl e \<Rightarrow> Raise e
        | Inr best \<Rightarrow>
            (case index UCB1 best of
               Inl e \<Rightarrow> Raise e
             | Inr action_id \<Rightarrow>
                 (case getitem actions action_id of
                    Inl e \<Rightarrow> Raise e
                  | Inr action \<Rightarrow>
                      (case playout board action player g of
                         Inl e \<Rightarrow> Raise e
                       | Inr (p, g') \<Rightarrow>
                           let u = u[action_id := u ! action_id + p];
                               n = n[action_id := n ! action_id + 1];
                               n_parent = n_parent + 1;
                               UCB1 = fold (\<lambda>action_id UCB1.
                                              if n ! action_id > 0
                                              then UCB1[action_id :=
                                                     Fin (ucb1 (u ! action_id) (n ! action_id) n_parent)]
                                              else UCB1)
                                        [0..<length actions] UCB1
                           in Continue (u, n, n_parent, UCB1, g')))))"

definition UCT_loop ::
  "(int \<Rightarrow> nat \<Rightarrow> nat \<Rightarrow> 'f::linorder) \<Rightarrow> board \<Rightarrow> int \<Rightarrow> player \<Rightarrow> rng \<Rightarrow>
   ('f uct_state, nat \<times> rng) flow" where
  "UCT_loop ucb1 board N player g =
     (let actions = get_actions board;
          u = replicate (length actions) 0;
          n = replicate (length actions) 0;
          n_parent = 0;
          UCB1 = replicate (length actions) PInf
      in for_each [0..<nat N] (UCT_body ucb1 board player actions) (u, n, n_parent, UCB1, g))"

definition UCT_depth1 ::
  "(int \<Rightarrow> nat \<Rightarrow> nat \<Rightarrow> 'f::linorder) \<Rightarrow> board \<Rightarrow> int \<Rightarrow> player \<Rightarrow> rng \<Rightarrow> error + (nat \<times> rng)" where
  "UCT_depth1 ucb1 board N player g =
     (case UCT_loop ucb1 board N player g of
        Raise e \<Rightarrow> Inl e
      | Return r \<Rightarrow> Inr r
      | Continue (u, n, n_parent, UCB1, g') \<Rightarrow>
          (case py_max n of
             Inl e \<Rightarrow> Inl e
           | Inr most \<Rightarrow>
               (case index n most of
                  Inl e \<Rightarrow> Inl e
                | Inr i \<Rightarrow>
                    (case getitem (get_actions board) i of
                       Inl e \<Rightarrow> Inl e
                     | Inr action \<Rightarrow> Inr (action, g')))))"

text \<open>
  A generator that always draws 0 and a score without the exploration term, for the
  closed examples below.
\<close>

definition zero_draws :: rng where
  "zero_draws = ((\<lambda>k. 0), 0)"

definition mean_only :: "int \<Rightarrow> nat \<Rightarrow> nat \<Rightarrow> int" where
  "mean_only u n n_parent = u div int n"

lemma fold_max_mem: "fold max xs (x::'a::linorder) \<in> set (x # xs)"
proof (induction xs arbitrary: x)
  case Nil
  show ?case by simp
next
  case (Cons y ys)
  from Cons.IH[of "max y x"] show ?case
    by (auto simp: max_def split: if_splits)
qed

lemma py_max_ok: "xs \<noteq> [] \<Longrightarrow> \<exists>m. py_max xs = Inr m \<and> m \<in> set xs"
  using fold_max_mem by (cases xs) (auto simp: py_max_def)

lemma py_max_empty: "py_max [] = Inl ValueError"
  by (simp add: py_max_def)

lemma index_ok: "v \<in> set xs \<Longrightarrow> \<exists>i. index xs v = Inr i \<and> i < length xs \<and> xs ! i = v"
  by (induction xs) auto

lemma py_max_replicate: "0 < k \<Longrightarrow> py_max (replicate k (x::'a::linorder)) = Inr x"
proof -
  have "fold max (replicate j x) x = x" for j
    by (induction j) simp_all
  then show "0 < k \<Longrightarrow> py_max (replicate k x) = Inr x"
    by (cases k) (simp_all add: py_max_def)
qed

lemma index_replicate: "0 < k \<Longrightarrow> index (replicate k x) x = Inr 0"
  by (cases k) simp_all

lemma blanks_le: "blanks b \<le> length b"
  by (simp add: blanks_def)

lemma blanks_after_move: "a < length b \<Longrightarrow> blanks (b[a := Some p]) < length b"
proof -
  assume a: "a < length b"
  then have "Some p \<in> set (b[a := Some p])"
    by (simp add: set_update_memI)
  then have "length (filter (\<lambda>c. c = None) (b[a := Some p])) < length (b[a := Some p])"
    by (rule length_filter_less) simp
  then show ?thesis by (simp add: blanks_def)
qed

lemma playout_loop_returns:
  "length state = 9 \<Longrightarrow>
   \<exists>u k'. playout_loop state player cp (f, k) = Inr (u, (f, k')) \<and> k' \<le> k + blanks state"
proof (induction "blanks state" arbitrary: state cp k rule: less_induct)
  case less
  from utility_ok[OF less.prems] obtain v where v: "utility state player = Inr v" by blast
  show ?case
  proof (cases v)
    case (Some u)
    with v show ?thesis
      by (simp add: playout_loop.simps[of state player cp "(f, k)"])
  next
    case None
    with v have un: "utility state player = Inr None" by simp
    have as: "get_actions_by Natural state = Inr (get_actions state)"
      by (simp add: get_actions_by_def)
    from utility_None_actions[OF un as] have ne: "get_actions state \<noteq> []" .
    define a where "a = get_actions state ! (f k mod length (get_actions state))"
    have ch: "choice (get_actions state) (f, k) = Inr (a, (f, Suc k))"
      using ne by (simp add: choice_def a_def)
    have "a \<in> set (get_actions state)"
      using ne by (simp add: a_def)
    note lc = legal_child[OF as this]
    have res: "result state cp a = Inr (state[a := Some cp])"
      using lc(1) by (simp add: result_def)
    have "length (state[a := Some cp]) = 9" using less.prems by simp
    from less.hyps[OF lc(2) this, of "other cp" "Suc k"]
    obtain u k' where "playout_loop (state[a := Some cp]) player (other cp) (f, Suc k) = Inr (u, (f, k'))"
      "k' \<le> Suc k + blanks (state[a := Some cp])"
      by blast
    with lc(2)[of cp] show ?thesis
      by (simp add: playout_loop.simps[of state player cp "(f, k)"] un ch res)
  qed
qed

lemma playout_returns:
  assumes "length board = 9" "action < 9"
  shows "\<exists>u k'. playout board action player (f, k) = Inr (u, (f, k')) \<and> k' \<le> k + 8"
proof -
  have res: "result board player action = Inr (board[action := Some player])"
    using assms by (simp add: result_def)
  have l: "length (board[action := Some player]) = 9" using assms by simp
  have "blanks (board[action := Some player]) < 9"
    using blanks_after_move[of action board player] assms by simp
  with playout_loop_returns[OF l, of player "other player" f k] show ?thesis
    by (auto simp: playout_def res)
qed

lemma length_fold_update:
  "length (fold (\<lambda>j U. if P j then U[j := h j] else U) js U0) = length U0"
  by (induction js arbitrary: U0) simp_all

lemma UCT_body_step:
  assumes len: "length board = 9" and ne: "get_actions board \<noteq> []"
    and inv: "length u = length (get_actions board)" "length n = length (get_actions board)"
      "length UCB1 = length (get_actions board)"
  shows "\<exists>u' n' UCB1' g'.
           UCT_body ucb1 board player (get_actions board) i (u, n, n_parent, UCB1, g) =
             Continue (u', n', Suc n_parent, UCB1', g') \<and>
           length u' = length (get_actions board) \<and> length n' = length (get_actions board) \<and>
           length UCB1' = length (get_actions board) \<and> sum_list n' = Suc (sum_list n)"
proof -
  have "UCB1 \<noteq> []" using ne inv by auto
  from py_max_ok[OF this] obtain best where best: "py_max UCB1 = Inr best" "best \<in> set UCB1"
    by blast
  from index_ok[OF best(2)] obtain j where j: "index UCB1 best = Inr j" "j < length UCB1"
    by blast
  then have jl: "j < length (get_actions board)" using inv by simp
  then have gi: "getitem (get_actions board) j = Inr (get_actions board ! j)"
    by (simp add: getitem_def)
  have "get_actions board ! j \<in> set (get_actions board)"
    using jl by simp
  then have "get_actions board ! j < 9"
    using len by (simp add: set_get_actions)
  from playout_returns[OF len this, of player "fst g" "snd g"]
  obtain p g' where p: "playout board (get_actions board ! j) player g = Inr (p, g')"
    by auto
  have "sum_list (n[j := Suc (n ! j)]) = Suc (sum_list n)"
    using jl inv by (simp add: sum_list_update)
  then show ?thesis
    using inv jl
    by (simp add: UCT_body_def best(1) j(1) gi p Let_def length_fold_update)
qed

lemma UCT_iterations:
  assumes len: "length board = 9" and ne: "get_actions board \<noteq> []"
  shows "length u = length (get_actions board) \<Longrightarrow> length n = length (get_actions board) \<Longrightarrow>
         length UCB1 = length (get_actions board) \<Longrightarrow>
         \<exists>u' n' UCB1' g'.
           for_each is (UCT_body ucb1 board player (get_actions board)) (u, n, n_parent, UCB1, g) =
             Continue (u', n', n_parent + length is, UCB1', g') \<and>
           length n' = length (get_actions board) \<and> sum_list n' = sum_list n + length is"
proof (induction "is" arbitrary: u n n_parent UCB1 g)
  case Nil
  then show ?case by simp
next
  case (Cons i "is")
  from UCT_body_step[OF len ne Cons.prems, of ucb1 player i n_parent g]
  obtain u' n' UCB1' g' where
    st: "UCT_body ucb1 board player (get_actions board) i (u, n, n_parent, UCB1, g) =
             Continue (u', n', Suc n_parent, UCB1', g')"
    and inv: "length u' = length (get_actions board)" "length n' = length (get_actions board)"
      "length UCB1' = length (get_actions board)"
    and sm: "sum_list n' = Suc (sum_list n)"
    by blast
  from Cons.IH[OF inv, of "Suc n_parent" g'] show ?case
    by (simp add: st sm)
qed

lemma UCT_loop_counts:
  assumes len: "length board = 9" and ne: "get_actions board \<noteq> []"
  shows "\<exists>u n UCB1 g'. UCT_loop ucb1 board N player g = Continue (u, n, nat N, UCB1, g') \<and>
           length n = length (get_actions board) \<and> sum_list n = nat N"
  using UCT_iterations[OF len ne, of "replicate (length (get_actions board)) 0"
      "replicate (length (get_actions board)) 0" "replicate (length (get_actions board)) PInf"
      "[0..<nat N]" ucb1 player 0 g]
  by (simp add: UCT_loop_def Let_def sum_list_replicate)

lemma UCT_depth1_returns:
  assumes len: "length board = 9" and ne: "get_actions board \<noteq> []"
  shows "\<exists>a g'. UCT_depth1 ucb1 board N player g = Inr (a, g') \<and> a \<in> set (get_actions board)"
proof -
  from UCT_loop_counts[OF len ne, of ucb1 N player g]
  obtain u n UCB1 g' where lp: "UCT_loop ucb1 board N player g = Continue (u, n, nat N, UCB1, g')"
    and ln: "length n = length (get_actions board)"
    by blast
  have "n \<noteq> []" using ne ln by auto
  from py_max_ok[OF this] obtain most where most: "py_max n = Inr most" "most \<in> set n"
    by blast
  from index_ok[OF most(2)] obtain j where j: "index n most = Inr j" "j < length n"
    by blast
  then have "j < length (get_actions board)" using ln by simp
  then show ?thesis
    by (simp add: UCT_depth1_def lp most(1) j(1) getitem_def)
qed

lemma UCT_loop_no_budget:
  "N \<le> 0 \<Longrightarrow> UCT_loop ucb1 board N player g =
     Continue (replicate (length (get_actions board)) 0, replicate (length (get_actions board)) 0, 0,
               replicate (length (get_actions board)) PInf, g)"
  by (simp add: UCT_loop_def Let_def)

lemma UCT_depth1_no_budget:
  "N \<le> 0 \<Longrightarrow> UCT_depth1 ucb1 board N player g =
     (if get_actions board = [] then Inl ValueError else Inr (hd (get_actions board), g))"
  by (simp add: UCT_depth1_def UCT_loop_no_budget py_max_empty py_max_replicate index_replicate
      getitem_def hd_conv_nth)

lemma UCT_loop_no_action:
  assumes "get_actions board = []" "1 \<le> N"
  shows "UCT_loop ucb1 board N player g = Raise ValueError"
proof -
  from assms(2) have "[0..<nat N] = 0 # [1..<nat N]"
    by (simp add: upt_conv_Cons)
  then show ?thesis
    by (simp add: UCT_loop_def Let_def assms(1) UCT_body_def py_max_empty)
qed

lemma UCT_depth1_no_action:
  assumes "get_actions board = []"
  shows "UCT_depth1 ucb1 board N player g = Inl ValueError"
proof (cases "1 \<le> N")
  case True
  with assms show ?thesis
    by (simp add: UCT_depth1_def UCT_loop_no_action)
next
  case False
  then have "N \<le> 0" by simp
  with assms show ?thesis
    by (simp add: UCT_depth1_no_budget)
qed

lemma get_actions_empty_board: "get_actions empty_board = [0, 1, 2, 3, 4, 5, 6, 7, 8]"
  by code_simp

lemma get_actions_drawn_board:
  "get_actions [Some PX, Some PO, Some PX, Some PX, Some PO, Some PO, Some PO, Some PX, Some PX] = []"
  by code_simp

section \<open>The test runs of the notebook\<close>

text \<open>
  The model, evaluated on the boards the notebook tries, gives the move, the value and the
  number of nodes the notebook prints: the minimax runs made with the first \<^verbatim>\<open>get_actions\<close>,
  and the runs made after the priority ordering was defined.
\<close>

lemma run_minimax_draw:
  "minimax_search Natural [Some PX, Some PO, Some PX, None, Some PO, None, None, None, None] PX =
     Inr (\<lparr>move = Some 7, val = Fin 0\<rparr>, 206)"
  by code_simp

lemma run_minimax_lost:
  "minimax_search Natural [Some PO, Some PO, None, Some PO, Some PX, None, None, None, Some PX] PX =
     Inr (\<lparr>move = Some 2, val = Fin (- 1)\<rparr>, 33)"
  by code_simp

lemma run_minimax_win:
  "minimax_search Priority [Some PX, Some PO, None, Some PO, Some PX, None, None, None, None] PX =
     Inr (\<lparr>move = Some 8, val = Fin 1\<rparr>, 190)"
  by code_simp

lemma run_alpha_beta_win:
  "alpha_beta_search Priority [Some PX, Some PO, None, Some PO, Some PX, None, None, None, None] PX =
     Inr (\<lparr>move = Some 8, val = Fin 1\<rparr>, 42)"
  by code_simp

lemma run_alpha_beta_draw:
  "alpha_beta_search Priority [Some PX, Some PO, Some PX, None, Some PO, None, None, None, None] PX =
     Inr (\<lparr>move = Some 7, val = Fin 0\<rparr>, 106)"
  by code_simp

lemma run_alpha_beta_lost:
  "alpha_beta_search Priority [Some PO, Some PO, None, Some PO, Some PX, None, None, None, Some PX] PX =
     Inr (\<lparr>move = Some 6, val = Fin (- 1)\<rparr>, 13)"
  by code_simp

lemma run_not_a_board: "minimax_search Natural [] PX = Inl ValueError"
  by code_simp

section \<open>Claims\<close>

text \<open>
  C3: on an occupied target cell, \<^verbatim>\<open>result\<close> should fail with an illegal-move error and
  never return a board with the cell overwritten.  The code does return such a board: on
  the board with \<^verbatim>\<open>'x'\<close> in cell 0, \<^verbatim>\<open>result(board, 'o', 0)\<close> prints its error line and
  returns the board with \<^verbatim>\<open>'o'\<close> in cell 0.
\<close>

theorem result_overwrites_occupied_cell:
  "result (empty_board[0 := Some PX]) PO 0 = Inr (empty_board[0 := Some PO]) \<and>
   result_stdout (empty_board[0 := Some PX]) PO 0 = [''Error: Illegal move!'']"
  by (simp add: result_def result_stdout_def empty_board_def)

text \<open>
  C1: for every board and player the value returned by \<^verbatim>\<open>alpha_beta_search\<close> equals the
  value returned by \<^verbatim>\<open>minimax_search\<close>; pruning never changes the value.  Stated for
  every list: both calls return the same value or raise the same exception, and on a
  nine-cell board both return.
\<close>

theorem alpha_beta_value_eq_minimax:
  "map_sum id (\<lambda>(r, c). val r) (alpha_beta_search ord board player) =
   map_sum id (\<lambda>(r, c). val r) (minimax_search ord board player) \<and>
   (length board = 9 \<longrightarrow>
      (\<exists>r c r' c'. alpha_beta_search ord board player = Inr (r, c) \<and>
                    minimax_search ord board player = Inr (r', c') \<and> val r = val r'))"
proof (cases "length board = 9")
  case True
  from minimax_refine[OF True, of ord player 0] alpha_beta_refine[OF True, of ord player MInf PInf 0]
  show ?thesis
    by (simp add: alpha_beta_search_def minimax_search_def split_beta ab_max_value True)
next
  case False
  then have "utility board player = Inl ValueError"
    by (simp add: utility_def check_win_def)
  with False show ?thesis
    by (simp add: alpha_beta_search_def minimax_search_def
        max_value.simps[of ord board player 0] max_value_ab.simps[of ord board player MInf PInf 0])
qed

theorem alpha_beta_value_eq_minimax_witness:
  "length [Some PX, Some PO, Some PX, None, Some PO, None, None, None, None] = 9 \<and>
   (\<exists>r c r' c'.
      alpha_beta_search Natural [Some PX, Some PO, Some PX, None, Some PO, None, None, None, None] PX
        = Inr (r, c) \<and>
      minimax_search Natural [Some PX, Some PO, Some PX, None, Some PO, None, None, None, None] PX
        = Inr (r', c') \<and> val r = val r')"
  using alpha_beta_value_eq_minimax
    [of Natural "[Some PX, Some PO, Some PX, None, Some PO, None, None, None, None]" PX]
  by simp

text \<open>
  C6: for every board and player the number of nodes \<^verbatim>\<open>alpha_beta_search\<close> visits (the
  value of \<^verbatim>\<open>COUNT\<close> after the call) is at most the number \<^verbatim>\<open>minimax_search\<close> visits
  on the same input.
\<close>

theorem alpha_beta_count_le_minimax:
  assumes "length board = 9"
  shows "\<exists>r c r' c'. alpha_beta_search ord board player = Inr (r, c) \<and>
                      minimax_search ord board player = Inr (r', c') \<and> c \<le> c'"
  using minimax_refine[OF assms, of ord player 0]
    alpha_beta_refine[OF assms, of ord player MInf PInf 0]
    ab_nodes_le[of MInf PInf "tree_of ord player True board"]
  by (simp add: alpha_beta_search_def minimax_search_def split_beta)

theorem alpha_beta_count_le_minimax_witness:
  "length [Some PX, Some PO, None, Some PO, Some PX, None, None, None, None] = 9 \<and>
   (\<exists>r c r' c'.
      alpha_beta_search Priority [Some PX, Some PO, None, Some PO, Some PX, None, None, None, None] PX
        = Inr (r, c) \<and>
      minimax_search Priority [Some PX, Some PO, None, Some PO, Some PX, None, None, None, None] PX
        = Inr (r', c') \<and> c \<le> c')"
  using alpha_beta_count_le_minimax
    [of "[Some PX, Some PO, None, Some PO, Some PX, None, None, None, None]" Priority PX]
  by simp

text \<open>
  C7: for every board the priority-ordered \<^verbatim>\<open>get_actions\<close> returns exactly the blank
  cells: the centre 4 first when blank, then the blank corners in the order 8, 6, 2, 0,
  then the blank edges in the order 7, 5, 3, 1 (within a class, descending index); on the
  empty board \<^verbatim>\<open>[4, 8, 6, 2, 0, 7, 5, 3, 1]\<close>.
\<close>

theorem get_actions_priority_order:
  assumes "length board = 9"
  shows "get_actions_priority board =
           Inr (filter (\<lambda>i. board ! i = None) [4] @
                filter (\<lambda>i. board ! i = None) [8, 6, 2, 0] @
                filter (\<lambda>i. board ! i = None) [7, 5, 3, 1]) \<and>
         set (filter (\<lambda>i. board ! i = None) [4] @
              filter (\<lambda>i. board ! i = None) [8, 6, 2, 0] @
              filter (\<lambda>i. board ! i = None) [7, 5, 3, 1]) = {i. i < 9 \<and> board ! i = None}"
proof -
  define P where "P = (\<lambda>i. board ! i = None)"
  have ok: "\<not> list_ex (\<lambda>i. length priority \<le> i) (get_actions board)"
    by (auto simp: list_ex_iff set_get_actions assms priority_def)
  have L: "rev [1, 3, 5, 7, 0, 2, 6, 8, 4::nat] = [4] @ [8, 6, 2, 0] @ [7, 5, 3, 1]"
    by simp
  have "map snd (sorted_reverse (zip (map (\<lambda>i. priority ! i) (get_actions board)) (get_actions board)))
        = map snd (rev (map (\<lambda>i. (priority ! i, i)) (filter P [1, 3, 5, 7, 0, 2, 6, 8, 4])))"
    by (simp only: sorted_reverse_def zip_map_self sort_priority_pairs[OF assms] P_def)
  also have "\<dots> = rev (filter P [1, 3, 5, 7, 0, 2, 6, 8, 4])"
    by (rule map_snd_rev_pairs[of "\<lambda>i. priority ! i"])
  also have "\<dots> = filter P [4] @ filter P [8, 6, 2, 0] @ filter P [7, 5, 3, 1]"
    by (simp only: rev_filter L filter_append)
  finally have "get_actions_priority board =
      Inr (filter P [4] @ filter P [8, 6, 2, 0] @ filter P [7, 5, 3, 1])"
    using ok by (simp only: get_actions_priority_def Let_def if_False)
  then have 1: "get_actions_priority board =
           Inr (filter (\<lambda>i. board ! i = None) [4] @
                filter (\<lambda>i. board ! i = None) [8, 6, 2, 0] @
                filter (\<lambda>i. board ! i = None) [7, 5, 3, 1])"
    by (simp only: P_def)
  from set_get_actions_priority[OF 1] have 2: "set (filter (\<lambda>i. board ! i = None) [4] @
              filter (\<lambda>i. board ! i = None) [8, 6, 2, 0] @
              filter (\<lambda>i. board ! i = None) [7, 5, 3, 1]) = {i. i < 9 \<and> board ! i = None}"
    by (simp only: set_get_actions assms)
  from 1 2 show ?thesis by (rule conjI)
qed

theorem get_actions_priority_order_witness:
  "length empty_board = 9 \<and> get_actions_priority empty_board = Inr [4, 8, 6, 2, 0, 7, 5, 3, 1]"
proof -
  have l: "length empty_board = 9"
    by (simp add: empty_board_def)
  have f: "filter (\<lambda>i. empty_board ! i = None) xs = xs" if "\<forall>i \<in> set xs. i < 9" for xs
    using that by (induction xs) (simp_all add: empty_board_def)
  have "filter (\<lambda>i. empty_board ! i = None) [4] = [4]"
    "filter (\<lambda>i. empty_board ! i = None) [8, 6, 2, 0] = [8, 6, 2, 0]"
    "filter (\<lambda>i. empty_board ! i = None) [7, 5, 3, 1] = [7, 5, 3, 1]"
    by (rule f, simp)+
  with get_actions_priority_order[OF l] have "get_actions_priority empty_board =
      Inr ([4] @ [8, 6, 2, 0] @ [7, 5, 3, 1])"
    by (simp only:)
  with l show ?thesis
    by simp
qed

text \<open>
  C8: on every terminal board \<^verbatim>\<open>utility(board, 'x')\<close> is the negation of
  \<^verbatim>\<open>utility(board, 'o')\<close>, and both are 0 exactly on a draw.
\<close>

theorem utility_perspective_swap:
  assumes "is_terminal board = Inr True"
  shows "\<exists>u. utility board PX = Inr (Some u) \<and> utility board PO = Inr (Some (- u)) \<and>
             (u = 0 \<longleftrightarrow> check_win board = Inr Draw)"
proof (cases "check_win board")
  case (Inl e)
  with assms show ?thesis by (simp add: is_terminal_def)
next
  case (Inr g)
  show ?thesis
  proof (cases g)
    case (Won q)
    with Inr show ?thesis
      by (cases q) (simp_all add: utility_def other_def)
  next
    case Draw
    with Inr show ?thesis
      by (simp add: utility_def)
  next
    case Next
    with Inr assms show ?thesis
      by (simp add: is_terminal_def)
  qed
qed

theorem utility_perspective_swap_witness:
  "is_terminal [Some PX, Some PX, Some PX, Some PO, Some PO, None, None, None, None] = Inr True \<and>
   (\<exists>u. utility [Some PX, Some PX, Some PX, Some PO, Some PO, None, None, None, None] PX = Inr (Some u) \<and>
        utility [Some PX, Some PX, Some PX, Some PO, Some PO, None, None, None, None] PO = Inr (Some (- u)) \<and>
        (u = 0 \<longleftrightarrow>
           check_win [Some PX, Some PX, Some PX, Some PO, Some PO, None, None, None, None] = Inr Draw))"
proof -
  have t: "is_terminal [Some PX, Some PX, Some PX, Some PO, Some PO, None, None, None, None] = Inr True"
    by (simp add: is_terminal_def check_win_def reshape33_def transpose33_def diagonals_def)
  from utility_perspective_swap[OF t] t show ?thesis by (rule conjI[rotated])
qed

text \<open>
  C2: for every board and maximising player, the value \<^verbatim>\<open>minimax_search\<close> returns is the
  game-theoretic value of the position under optimal play by both sides, and the returned
  action, when present, is a legal move to a position whose value, with the opponent to
  move, is that value.
\<close>

theorem minimax_game_theoretic_value:
  assumes "length board = 9"
  shows "\<exists>m c. minimax_search ord board player =
                  Inr (\<lparr>move = m, val = Fin (game_value player player board)\<rparr>, c) \<and>
               (\<forall>a. m = Some a \<longrightarrow>
                    a \<in> legal board \<and>
                    result board player a = Inr (board[a := Some player]) \<and>
                    game_value player (other player) (board[a := Some player]) =
                      game_value player player board)"
proof -
  define T where "T = tree_of ord player True board"
  have ms: "minimax_search ord board player =
      Inr (\<lparr>move = snd (mm_max T), val = Fin (game_value player player board)\<rparr>, nodes T)"
    using minimax_refine[OF assms, of ord player 0] minimax_game_value[OF assms, of ord player]
    by (simp add: minimax_search_def split_beta T_def)
  have "a \<in> legal board \<and> result board player a = Inr (board[a := Some player]) \<and>
        game_value player (other player) (board[a := Some player]) = game_value player player board"
    if mv: "snd (mm_max T) = Some a" for a
  proof -
    from utility_ok[OF assms] obtain u where u: "utility board player = Inr u" by blast
    have un: "utility board player = Inr None"
    proof (cases u)
      case None
      with u show ?thesis by simp
    next
      case (Some v)
      with u mv show ?thesis by (simp add: T_def tree_of_Leaf)
    qed
    from get_actions_by_ok[OF assms] obtain as where as: "get_actions_by ord board = Inr as"
      by blast
    from root_moves(1)[OF assms un as] mv have "a \<in> set as"
      by (auto simp: T_def)
    then have a: "a < length board" "board ! a = None"
      using set_get_actions_by[OF as] by auto
    from mm_max_achieves[OF assms un as mv[unfolded T_def]] a show ?thesis
      by (simp add: legal_iff result_def)
  qed
  with ms show ?thesis by blast
qed

theorem minimax_game_theoretic_value_witness:
  "length [Some PX, Some PO, Some PX, None, Some PO, None, None, None, None] = 9 \<and>
   (\<exists>m c. minimax_search Natural [Some PX, Some PO, Some PX, None, Some PO, None, None, None, None] PX =
             Inr (\<lparr>move = m, val = Fin (game_value PX PX [Some PX, Some PO, Some PX, None, Some PO, None, None, None, None])\<rparr>, c) \<and>
          (\<forall>a. m = Some a \<longrightarrow>
               a \<in> legal [Some PX, Some PO, Some PX, None, Some PO, None, None, None, None] \<and>
               result [Some PX, Some PO, Some PX, None, Some PO, None, None, None, None] PX a = Inr ([Some PX, Some PO, Some PX, None, Some PO, None, None, None, None][a := Some PX]) \<and>
               game_value PX (other PX) ([Some PX, Some PO, Some PX, None, Some PO, None, None, None, None][a := Some PX]) = game_value PX PX [Some PX, Some PO, Some PX, None, Some PO, None, None, None, None]))"
  using minimax_game_theoretic_value[of "[Some PX, Some PO, Some PX, None, Some PO, None, None, None, None]" Natural PX]
  by simp

text \<open>
  C4: for every board and player, \<^verbatim>\<open>minimax_search\<close> and \<^verbatim>\<open>alpha_beta_search\<close> return
  \<^verbatim>\<open>move = None\<close> if and only if the board is terminal; on a non-terminal board the
  returned move is present and is the index of a blank cell of the board.
\<close>

theorem move_absent_iff_terminal:
  assumes "length board = 9"
  shows "\<exists>r c r' c'.
           minimax_search ord board player = Inr (r, c) \<and>
           alpha_beta_search ord board player = Inr (r', c') \<and>
           is_terminal board = Inr (move r = None) \<and>
           is_terminal board = Inr (move r' = None) \<and>
           (\<forall>a. move r = Some a \<longrightarrow> a \<in> set (get_actions board)) \<and>
           (\<forall>a. move r' = Some a \<longrightarrow> a \<in> set (get_actions board))"
proof -
  define T where "T = tree_of ord player True board"
  have ms: "minimax_search ord board player =
      Inr (\<lparr>move = snd (mm_max T), val = fst (mm_max T)\<rparr>, nodes T)"
    using minimax_refine[OF assms, of ord player 0]
    by (simp add: minimax_search_def split_beta T_def)
  have ab: "alpha_beta_search ord board player =
      Inr (\<lparr>move = snd (fst (ab_max MInf PInf T)), val = fst (fst (ab_max MInf PInf T))\<rparr>,
           snd (ab_max MInf PInf T))"
    using alpha_beta_refine[OF assms, of ord player MInf PInf 0]
    by (simp add: alpha_beta_search_def split_beta T_def)
  from utility_ok[OF assms] obtain u where u: "utility board player = Inr u" by blast
  have "is_terminal board = Inr (snd (mm_max T) = None) \<and>
        is_terminal board = Inr (snd (fst (ab_max MInf PInf T)) = None) \<and>
        (\<forall>a. snd (mm_max T) = Some a \<longrightarrow> a \<in> set (get_actions board)) \<and>
        (\<forall>a. snd (fst (ab_max MInf PInf T)) = Some a \<longrightarrow> a \<in> set (get_actions board))"
  proof (cases u)
    case (Some v)
    with u show ?thesis
      by (simp add: is_terminal_utility[OF assms, of player] T_def tree_of_Leaf)
  next
    case None
    with u have un: "utility board player = Inr None" by simp
    from get_actions_by_ok[OF assms] obtain as where as: "get_actions_by ord board = Inr as"
      by blast
    have sa: "set as = set (get_actions board)"
      unfolding set_get_actions_by[OF as] set_get_actions ..
    from root_moves[OF assms un as] un show ?thesis
      by (auto simp: is_terminal_utility[OF assms, of player] T_def sa)
  qed
  note F = this
  have "is_terminal board = Inr (move \<lparr>move = snd (mm_max T), val = fst (mm_max T)\<rparr> = None) \<and>
        is_terminal board = Inr (move \<lparr>move = snd (fst (ab_max MInf PInf T)),
                                       val = fst (fst (ab_max MInf PInf T))\<rparr> = None) \<and>
        (\<forall>a. move \<lparr>move = snd (mm_max T), val = fst (mm_max T)\<rparr> = Some a \<longrightarrow>
             a \<in> set (get_actions board)) \<and>
        (\<forall>a. move \<lparr>move = snd (fst (ab_max MInf PInf T)),
                     val = fst (fst (ab_max MInf PInf T))\<rparr> = Some a \<longrightarrow>
             a \<in> set (get_actions board))"
    unfolding search_result.select_convs by (rule F)
  with ms ab show ?thesis by blast
qed

theorem move_absent_iff_terminal_witness:
  "length [Some PX, Some PO, Some PX, None, Some PO, None, None, None, None] = 9 \<and>
   (\<exists>r c r' c'.
      minimax_search Natural [Some PX, Some PO, Some PX, None, Some PO, None, None, None, None] PX = Inr (r, c) \<and>
      alpha_beta_search Natural [Some PX, Some PO, Some PX, None, Some PO, None, None, None, None] PX = Inr (r', c') \<and>
      is_terminal [Some PX, Some PO, Some PX, None, Some PO, None, None, None, None] = Inr (move r = None) \<and>
      is_terminal [Some PX, Some PO, Some PX, None, Some PO, None, None, None, None] = Inr (move r' = None) \<and>
      (\<forall>a. move r = Some a \<longrightarrow> a \<in> set (get_actions [Some PX, Some PO, Some PX, None, Some PO, None, None, None, None])) \<and>
      (\<forall>a. move r' = Some a \<longrightarrow> a \<in> set (get_actions [Some PX, Some PO, Some PX, None, Some PO, None, None, None, None])))"
  using move_absent_iff_terminal[of "[Some PX, Some PO, Some PX, None, Some PO, None, None, None, None]" Natural PX]
  by simp

text \<open>
  C5 as stated (\<^verbatim>\<open>UCT_depth1\<close> rejects every budget \<open>N \<le> 0\<close> with an error and returns
  no action) fails: with budget 0 on the empty board the call returns action 0.
\<close>

theorem uct_zero_budget_returns_action:
  "UCT_depth1 mean_only empty_board 0 PX zero_draws = Inr (0, zero_draws)"
  by (simp add: UCT_depth1_no_budget get_actions_empty_board)

text \<open>
  C5, amended: for a budget \<open>N \<le> 0\<close> \<^verbatim>\<open>UCT_depth1\<close> runs no iteration and no playout and
  raises no budget error; on a board with a blank cell it returns the first blank cell in
  index order, and on a board without one it raises \<^verbatim>\<open>ValueError\<close> (\<^verbatim>\<open>max\<close> of an empty
  list).
\<close>

theorem uct_non_positive_budget:
  assumes "N \<le> 0"
  shows "UCT_depth1 ucb1 board N player g =
           (if get_actions board = [] then Inl ValueError else Inr (hd (get_actions board), g)) \<and>
         UCT_loop ucb1 board N player g =
           Continue (replicate (length (get_actions board)) 0,
                     replicate (length (get_actions board)) 0, 0,
                     replicate (length (get_actions board)) PInf, g)"
  using assms by (simp add: UCT_depth1_no_budget UCT_loop_no_budget)

theorem uct_non_positive_budget_witness:
  "(- 3 :: int) \<le> 0 \<and>
   UCT_depth1 mean_only empty_board (- 3) PX zero_draws = Inr (0, zero_draws)"
  using uct_non_positive_budget[of "- 3" mean_only empty_board PX zero_draws]
  by (simp add: get_actions_empty_board)

text \<open>
  C9 as stated (\<^verbatim>\<open>UCT_depth1\<close> performs exactly \<open>N\<close> iterations for budget \<open>N\<close>) fails on
  a board without blank cells: with budget 2 the first iteration raises \<^verbatim>\<open>ValueError\<close>.
\<close>

theorem uct_full_board_raises_in_first_iteration:
  "UCT_loop mean_only
     [Some PX, Some PO, Some PX, Some PX, Some PO, Some PO, Some PO, Some PX, Some PX]
     2 PX zero_draws = Raise ValueError"
  by (simp add: UCT_loop_no_action get_actions_drawn_board)

text \<open>
  C9, amended: on every nine-cell board \<^verbatim>\<open>minimax_search\<close> and \<^verbatim>\<open>alpha_beta_search\<close>
  return; every recursive call is on a child board with strictly fewer blank cells, of
  which there are at most 9; a random playout returns after the given action and at most
  8 random ones (at most 9 move applications); and on a board with a blank cell the loop
  of \<^verbatim>\<open>UCT_depth1\<close> runs exactly \<open>N\<close> times for \<open>N \<ge> 0\<close> (not at all for \<open>N < 0\<close>), one
  playout each, and the call returns an action.  The functions of the model are total:
  no call runs forever.
\<close>

theorem engines_return:
  assumes "length board = 9"
  shows "(\<exists>r. minimax_search ord board player = Inr r) \<and>
         (\<exists>r. alpha_beta_search ord board player = Inr r) \<and>
         blanks board \<le> 9 \<and>
         (\<forall>as a c. get_actions_by ord board = Inr as \<longrightarrow> a \<in> set as \<longrightarrow>
                   result board q a = Inr c \<longrightarrow> length c = 9 \<and> blanks c < blanks board) \<and>
         (action < 9 \<longrightarrow>
            (\<exists>p k'. playout board action player (f, k) = Inr (p, (f, k')) \<and> k' \<le> k + 8)) \<and>
         (get_actions board \<noteq> [] \<longrightarrow>
            (\<exists>u n UCB1 g'. UCT_loop ucb1 board N player g = Continue (u, n, nat N, UCB1, g') \<and>
                           sum_list n = nat N) \<and>
            (\<exists>a g'. UCT_depth1 ucb1 board N player g = Inr (a, g')))"
proof (intro conjI impI allI)
  show "\<exists>r. minimax_search ord board player = Inr r"
    using minimax_refine[OF assms, of ord player 0]
    by (simp add: minimax_search_def split_beta)
  show "\<exists>r. alpha_beta_search ord board player = Inr r"
    using alpha_beta_refine[OF assms, of ord player MInf PInf 0]
    by (simp add: alpha_beta_search_def split_beta)
  show "blanks board \<le> 9"
    using blanks_le[of board] assms by simp
  show "length c = 9" if "get_actions_by ord board = Inr as" "a \<in> set as" "result board q a = Inr c"
    for as a c
    using child_blanks(2)[OF that] assms by simp
  show "blanks c < blanks board"
    if "get_actions_by ord board = Inr as" "a \<in> set as" "result board q a = Inr c" for as a c
    using child_blanks(1)[OF that] .
  show "\<exists>p k'. playout board action player (f, k) = Inr (p, (f, k')) \<and> k' \<le> k + 8"
    if "action < 9"
    using playout_returns[OF assms that] .
  show "\<exists>u n UCB1 g'. UCT_loop ucb1 board N player g = Continue (u, n, nat N, UCB1, g') \<and>
                           sum_list n = nat N"
    if "get_actions board \<noteq> []"
    using UCT_loop_counts[OF assms that, of ucb1 N player g] by blast
  show "\<exists>a g'. UCT_depth1 ucb1 board N player g = Inr (a, g')"
    if "get_actions board \<noteq> []"
    using UCT_depth1_returns[OF assms that, of ucb1 N player g] by blast
qed

theorem engines_return_witness:
  "length empty_board = 9 \<and> (4::nat) < 9 \<and> get_actions empty_board \<noteq> [] \<and>
   (\<exists>r. minimax_search Natural empty_board PX = Inr r) \<and>
   (\<exists>r. alpha_beta_search Natural empty_board PX = Inr r) \<and>
   (\<exists>p k'. playout empty_board 4 PX (fst zero_draws, 0) = Inr (p, (fst zero_draws, k')) \<and> k' \<le> 8) \<and>
   (\<exists>u n UCB1 g'. UCT_loop mean_only empty_board 100 PX zero_draws = Continue (u, n, 100, UCB1, g') \<and>
                  sum_list n = 100)"
proof -
  have l: "length empty_board = 9" by (simp add: empty_board_def)
  have ne: "get_actions empty_board \<noteq> []" by (simp add: get_actions_empty_board)
  from engines_return[OF l, of Natural PX PX 4 "fst zero_draws" 0 mean_only 100 zero_draws] l ne
  show ?thesis by simp
qed

text \<open>
  C10: on every board without blank cells \<^verbatim>\<open>UCT_depth1\<close> returns no action: for a
  budget \<open>N \<ge> 1\<close> the selection step of the first iteration raises \<^verbatim>\<open>ValueError\<close> from
  \<^verbatim>\<open>max\<close> of the empty \<^verbatim>\<open>UCB1\<close> list (and for \<open>N \<le> 0\<close> the final \<^verbatim>\<open>max\<close> of the empty
  visit counts does).
\<close>

theorem uct_no_action_without_blank_cell:
  assumes "get_actions board = []"
  shows "UCT_depth1 ucb1 board N player g = Inl ValueError \<and>
         (1 \<le> N \<longrightarrow> UCT_loop ucb1 board N player g = Raise ValueError)"
  using assms by (simp add: UCT_depth1_no_action UCT_loop_no_action)

theorem uct_no_action_without_blank_cell_witness:
  "get_actions [Some PX, Some PO, Some PX, Some PX, Some PO, Some PO, Some PO, Some PX, Some PX] = [] \<and>
   (1::int) \<le> 1 \<and>
   UCT_depth1 mean_only
     [Some PX, Some PO, Some PX, Some PX, Some PO, Some PO, Some PO, Some PX, Some PX]
     1 PX zero_draws = Inl ValueError \<and>
   UCT_loop mean_only
     [Some PX, Some PO, Some PX, Some PX, Some PO, Some PO, Some PO, Some PX, Some PX]
     1 PX zero_draws = Raise ValueError"
  using uct_no_action_without_blank_cell[OF get_actions_drawn_board, of mean_only 1 PX zero_draws]
    get_actions_drawn_board
  by simp

end
